theory Spec2Isabelle
  imports Complex_Main "HOL-Library.Multiset" "HOL-Library.AList" "HOL-Library.Log_Nat"
begin

section \<open>Numbers\<close>

text \<open>
  A JavaScript number is an IEEE 754 double. The finite doubles are rational numbers, so a
  number of the model is a rational, and the sum of two numbers is the exact sum rounded
  to the nearest double, ties to the even significand, as \<open>+\<close> does: with \<open>2^e \<le> |x| < 2^(e+1)\<close>
  the doubles next to \<open>x\<close> are the multiples of \<open>2^(e-52)\<close>. Comparison is that of the
  rationals. \<open>Infinity\<close> and \<open>NaN\<close> have no counterpart: a sum beyond the largest double
  (about \<open>1.8e308\<close>) is outside the model, and arithmetic on \<open>undefined\<close> is a failure where
  the code could get there. The exponent has no lower bound here: a sum of two doubles
  that is smaller than \<open>2^-1022\<close> in size is a multiple of \<open>2^-1074\<close>, hence a double itself,
  and is not rounded, in JavaScript as here. The edge costs and heuristic values of a
  graph stand for the doubles the code holds; a rational that is no double stands for no
  JavaScript value.
\<close>

type_synonym number = rat

text \<open>\<open>exponent x\<close> is the \<open>e\<close> with \<open>2^e \<le> x < 2^(e+1)\<close>, for positive \<open>x\<close>.\<close>

definition exponent :: "rat \<Rightarrow> int" where
  "exponent x =
     (let (a, b) = quotient_of x;
          k = bitlen a - bitlen b
      in if 2 powi k \<le> x then k else k - 1)"

definition roundTiesToEven :: "rat \<Rightarrow> int" where
  "roundTiesToEven q =
     (let f = \<lfloor>q\<rfloor>;
          d = q - of_int f
      in if d < 1 / 2 then f
         else if 1 / 2 < d then f + 1
         else if even f then f else f + 1)"

definition nearest :: "rat \<Rightarrow> rat" where
  "nearest x =
     (let ulp = 2 powi (exponent x - 52) in of_int (roundTiesToEven (x / ulp)) * ulp)"

definition to_double :: "rat \<Rightarrow> number" where
  "to_double x = sgn x * nearest \<bar>x\<bar>"

definition number_add :: "number \<Rightarrow> number \<Rightarrow> number" where
  "number_add a b = to_double (a + b)"

section \<open>The priority queue (class PriorityQueue of algorithms.js)\<close>

text \<open>
  A queue entry is the object \<open>{ element, priority }\<close>; the queue only compares
  priorities. The object's single field \<open>items\<close> is the array of entries, so a queue is
  the list of its items.
\<close>

record 'a item =
  element :: 'a
  priority :: number

type_synonym 'a pqueue = "'a item list"

definition isEmpty :: "'a pqueue \<Rightarrow> bool" where
  "isEmpty items = (length items = 0)"

text \<open>
  \<open>bubbleUp(index)\<close>: the entry at \<open>index\<close> is held in \<open>item\<close> while its ancestors move
  down; it is written back where the loop stops. The loop is the function below, the
  method reads \<open>this.items[index]\<close> first. \<open>enqueue\<close> calls it with the last index, so
  every index read is in range.
\<close>

function bubbleUp_loop :: "'a pqueue \<Rightarrow> nat \<Rightarrow> 'a item \<Rightarrow> 'a pqueue" where
  "bubbleUp_loop items index item =
     (if index > 0 then
        (let parentIndex = (index - 1) div 2;
             parent = items ! parentIndex
         in if priority item \<ge> priority parent then items[index := item]
            else bubbleUp_loop (items[index := parent]) parentIndex item)
      else items[index := item])"
  by pat_completeness auto
termination
  by (relation "measure (\<lambda>(items, index, item). index)") auto

declare bubbleUp_loop.simps [simp del]

definition bubbleUp :: "'a pqueue \<Rightarrow> nat \<Rightarrow> 'a pqueue" where
  "bubbleUp items index = bubbleUp_loop items index (items ! index)"

definition enqueue :: "'a pqueue \<Rightarrow> 'a \<Rightarrow> number \<Rightarrow> 'a pqueue" where
  "enqueue items e p =
     (let item = \<lparr>element = e, priority = p\<rparr>;
          items = items @ [item]
      in bubbleUp items (length items - 1))"

text \<open>
  One round of \<open>sinkDown\<close> chooses \<open>swapIndex\<close>: the left child when it is smaller than
  \<open>item\<close>, then the right child when it is smaller than \<open>item\<close> (no left choice) or
  smaller than the chosen left child; \<open>None\<close> is JavaScript's \<open>null\<close>.
\<close>

definition swapIndex :: "'a pqueue \<Rightarrow> nat \<Rightarrow> 'a item \<Rightarrow> nat option" where
  "swapIndex items index item =
     (let len = length items;
          leftChildIndex = 2 * index + 1;
          rightChildIndex = 2 * index + 2;
          swap = (if leftChildIndex < len \<and> priority (items ! leftChildIndex) < priority item
                  then Some leftChildIndex else None)
      in if rightChildIndex < len \<and>
            (case swap of
               None \<Rightarrow> priority (items ! rightChildIndex) < priority item
             | Some s \<Rightarrow> priority (items ! rightChildIndex) < priority (items ! s))
         then Some rightChildIndex else swap)"

lemma swapIndex_range:
  "swapIndex items index item = Some s \<Longrightarrow> index < s \<and> s < length items"
  by (auto simp: swapIndex_def Let_def split: if_splits option.splits)

function sinkDown_loop :: "'a pqueue \<Rightarrow> nat \<Rightarrow> 'a item \<Rightarrow> 'a pqueue" where
  "sinkDown_loop items index item =
     (case swapIndex items index item of
        None \<Rightarrow> items[index := item]
      | Some s \<Rightarrow> sinkDown_loop (items[index := items ! s]) s item)"
  by pat_completeness auto
termination
  by (relation "measure (\<lambda>(items, index, item). length items - index)")
     (auto dest: swapIndex_range)

declare sinkDown_loop.simps [simp del]

definition sinkDown :: "'a pqueue \<Rightarrow> nat \<Rightarrow> 'a pqueue" where
  "sinkDown items index = sinkDown_loop items index (items ! index)"

text \<open>
  \<open>dequeue\<close> returns the removed element (\<open>None\<close> is \<open>null\<close>) and the array it leaves.
  \<open>this.items.pop()\<close> removes the last entry; the root is overwritten by it only when
  entries remain.
\<close>

definition dequeue :: "'a pqueue \<Rightarrow> 'a option \<times> 'a pqueue" where
  "dequeue items =
     (if isEmpty items then (None, items)
      else
        (let min = items ! 0;
             end = last items;
             items = butlast items
         in if length items > 0 then (Some (element min), sinkDown (items[0 := end]) 0)
            else (Some (element min), items)))"

section \<open>The graph store (class Graph)\<close>

text \<open>
  A node is \<open>{ name, x, y, h }\<close>, an edge \<open>{ to, cost }\<close>. The two \<open>Map\<close>s of a graph keep
  insertion order and are finite, so they are association lists: \<open>get\<close> is \<open>map_of\<close>,
  \<open>set\<close> is \<open>AList.update\<close> (in place for a known key, at the end for a new one).
\<close>

record node =
  node_name :: string
  node_x :: number
  node_y :: number
  node_h :: number

type_synonym edge = "string \<times> number"

record graph =
  nodes :: "(string \<times> node) list"
  edges :: "(string \<times> edge list) list"

text \<open>
  What a JavaScript run can do besides returning: throw a \<open>TypeError\<close> (a property of
  \<open>undefined\<close> or \<open>null\<close> is read), compute with \<open>undefined\<close> as a number (\<open>NaN\<close>), or
  never return.
\<close>

datatype failure = TypeError | NotANumber | NoReturn

definition addNode :: "graph \<Rightarrow> string \<Rightarrow> number \<Rightarrow> number \<Rightarrow> number \<Rightarrow> graph" where
  "addNode g name x y h =
     \<lparr>nodes = AList.update name \<lparr>node_name = name, node_x = x, node_y = y, node_h = h\<rparr> (nodes g),
      edges = (if map_of (edges g) name = None then AList.update name [] (edges g)
               else edges g)\<rparr>"

text \<open>
  One direction of \<open>addEdge\<close>: the edge list of \<open>from\<close> is read (\<open>undefined.find\<close> throws
  when there is none), an existing edge to \<open>to\<close> gets the new cost, otherwise the edge is
  pushed.
\<close>

definition addDirected :: "graph \<Rightarrow> string \<Rightarrow> string \<Rightarrow> number \<Rightarrow> failure + graph" where
  "addDirected g from to cost =
     (case map_of (edges g) from of
        None \<Rightarrow> Inl TypeError
      | Some fromEdges \<Rightarrow>
          Inr (g\<lparr>edges := AList.update from (AList.update to cost fromEdges) (edges g)\<rparr>))"

text \<open>\<open>addEdge\<close>; the returned boolean is not modelled, the graph it leaves is.\<close>

definition addEdge :: "graph \<Rightarrow> string \<Rightarrow> string \<Rightarrow> number \<Rightarrow> bool \<Rightarrow> failure + graph" where
  "addEdge g from to cost bidirectional =
     (if map_of (nodes g) from = None \<or> map_of (nodes g) to = None then Inr g
      else
        (case addDirected g from to cost of
           Inl e \<Rightarrow> Inl e
         | Inr g' \<Rightarrow> if bidirectional then addDirected g' to from cost else Inr g'))"

text \<open>
  \<open>removeNode\<close>: every edge list loses its edges to \<open>name\<close>, then the node and its edge
  list are deleted. As for \<open>addEdge\<close>, the returned boolean is not modelled.
\<close>

definition removeNode :: "graph \<Rightarrow> string \<Rightarrow> graph" where
  "removeNode g name =
     (if map_of (nodes g) name = None then g
      else
        \<lparr>nodes = AList.delete name (nodes g),
         edges = AList.delete name
                   (map (\<lambda>(nodeName, es). (nodeName, filter (\<lambda>(to, cost). to \<noteq> name) es))
                      (edges g))\<rparr>)"

fun addEdges :: "graph \<Rightarrow> (string \<times> string \<times> number) list \<Rightarrow> failure + graph" where
  "addEdges g [] = Inr g"
| "addEdges g ((from, to, cost) # rest) =
     (case addEdge g from to cost True of Inl e \<Rightarrow> Inl e | Inr g' \<Rightarrow> addEdges g' rest)"

definition defaultNodes :: "(string \<times> number \<times> number \<times> number) list" where
  "defaultNodes =
     [(''A'', 100, 100, 7), (''B'', 250, 80, 6), (''C'', 150, 200, 5), (''D'', 300, 200, 4),
      (''E'', 400, 150, 2), (''F'', 200, 300, 3), (''G'', 350, 320, 1), (''Goal'', 450, 280, 0)]"

definition defaultEdges :: "(string \<times> string \<times> number) list" where
  "defaultEdges =
     [(''A'', ''B'', 2), (''A'', ''C'', 3), (''B'', ''D'', 3), (''B'', ''E'', 4),
      (''C'', ''D'', 2), (''C'', ''F'', 4), (''D'', ''E'', 1), (''D'', ''G'', 3),
      (''E'', ''Goal'', 2), (''F'', ''G'', 2), (''G'', ''Goal'', 3)]"

definition initializeDefaultGraph :: "graph \<Rightarrow> failure + graph" where
  "initializeDefaultGraph g =
     addEdges (foldl (\<lambda>g (name, x, y, h). addNode g name x y h) g defaultNodes) defaultEdges"

text \<open>\<open>new Graph()\<close>: two empty maps, then the default graph.\<close>

definition newGraph :: "failure + graph" where
  "newGraph = initializeDefaultGraph \<lparr>nodes = [], edges = []\<rparr>"

text \<open>
  \<open>getNeighbors\<close> pairs each edge with \<open>this.nodes.get(edge.to)\<close>, which is \<open>undefined\<close>
  (\<open>None\<close>) for a name that is not a node.
\<close>

type_synonym neighbor = "node option \<times> number"

definition getNeighbors :: "graph \<Rightarrow> string \<Rightarrow> neighbor list" where
  "getNeighbors g nodeName =
     (case map_of (edges g) nodeName of
        None \<Rightarrow> []
      | Some es \<Rightarrow> map (\<lambda>(to, cost). (map_of (nodes g) to, cost)) es)"

definition getNode :: "graph \<Rightarrow> string \<Rightarrow> node option" where
  "getNode g name = map_of (nodes g) name"

section \<open>Results (SearchAlgorithms.buildResult)\<close>

text \<open>
  \<open>timeTaken\<close> is a difference of two clock readings and is left out. The predecessor map
  sends a vertex to \<open>Some p\<close> (reached from \<open>p\<close>) or \<open>None\<close> (the start's \<open>null\<close>).
\<close>

record result =
  found :: bool
  path :: "string list"
  pathCost :: number
  nodesExplored :: nat
  exploredOrder :: "string list"

type_synonym parent_map = "string \<rightharpoonup> string option"

text \<open>
  The walk \<open>while (current !== null) { path.unshift(current); current = parent.get(current) }\<close>.
  A vertex without an entry gives \<open>undefined\<close>, which is not \<open>null\<close> and has no entry
  either: the loop then runs forever, as it does on a cyclic predecessor chain. Not
  returning is the value \<open>None\<close>.
\<close>

partial_function (option) reconstruct ::
  "parent_map \<Rightarrow> string option \<Rightarrow> string list \<Rightarrow> string list option" where
  "reconstruct parent current pth =
     (case current of
        None \<Rightarrow> Some pth
      | Some c \<Rightarrow>
          (case parent c of
             None \<Rightarrow> None
           | Some p \<Rightarrow> reconstruct parent p (c # pth)))"

declare reconstruct.simps [code]

lemma reconstruct_null [simp]: "reconstruct parent None pth = Some pth"
  by (subst reconstruct.simps) simp

lemma reconstruct_step [simp]:
  "reconstruct parent (Some c) pth =
     (case parent c of None \<Rightarrow> None | Some p \<Rightarrow> reconstruct parent p (c # pth))"
  by (subst reconstruct.simps) simp

text \<open>\<open>neighbors.find(n => n.node.name === target)\<close>, reading \<open>n.node.name\<close> as it goes.\<close>

fun findNeighbor :: "neighbor list \<Rightarrow> string \<Rightarrow> failure + number option" where
  "findNeighbor [] target = Inr None"
| "findNeighbor ((None, cost) # rest) target = Inl TypeError"
| "findNeighbor ((Some nd, cost) # rest) target =
     (if node_name nd = target then Inr (Some cost) else findNeighbor rest target)"

text \<open>The loop "calculate cost manually" over the consecutive pairs of the path.\<close>

fun sumEdgeCosts :: "graph \<Rightarrow> string list \<Rightarrow> number \<Rightarrow> failure + number" where
  "sumEdgeCosts g (a # b # rest) acc =
     (case findNeighbor (getNeighbors g a) b of
        Inl e \<Rightarrow> Inl e
      | Inr None \<Rightarrow> sumEdgeCosts g (b # rest) acc
      | Inr (Some cost) \<Rightarrow> sumEdgeCosts g (b # rest) (number_add acc cost))"
| "sumEdgeCosts g p acc = Inr acc"

definition mkResult :: "bool \<Rightarrow> string list \<Rightarrow> number \<Rightarrow> string list \<Rightarrow> result" where
  "mkResult fnd p c explored =
     \<lparr>found = fnd, path = p, pathCost = c, nodesExplored = length explored,
      exploredOrder = explored\<rparr>"

text \<open>
  \<open>buildResult(start, goal, parent, exploredOrder, timeTaken, found, costMap)\<close>;
  \<open>costMap.get(goal) || 0\<close> is \<open>0\<close> for a missing entry and for the entry \<open>0\<close>.
\<close>

definition buildResult ::
  "graph \<Rightarrow> string \<Rightarrow> string \<Rightarrow> parent_map \<Rightarrow> string list \<Rightarrow> bool \<Rightarrow>
   (string \<rightharpoonup> number) option \<Rightarrow> failure + result" where
  "buildResult g start goal parent explored fnd costMap =
     (if fnd \<and> parent goal \<noteq> None then
        (case reconstruct parent (Some goal) [] of
           None \<Rightarrow> Inl NoReturn
         | Some p \<Rightarrow>
             (case costMap of
                Some cm \<Rightarrow>
                  Inr (mkResult fnd p (case cm goal of None \<Rightarrow> 0 | Some c \<Rightarrow> c) explored)
              | None \<Rightarrow>
                  (case sumEdgeCosts g p 0 of
                     Inl e \<Rightarrow> Inl e
                   | Inr c \<Rightarrow> Inr (mkResult fnd p c explored))))
      else Inr (mkResult fnd [] 0 explored))"

section \<open>Sizes, used for the termination of the search loops\<close>

lemma length_bubbleUp_loop [simp]:
  "length (bubbleUp_loop items index item) = length items"
  by (induction items index item rule: bubbleUp_loop.induct)
     (subst bubbleUp_loop.simps, simp add: Let_def)

lemma length_enqueue [simp]: "length (enqueue items e p) = Suc (length items)"
  by (simp add: enqueue_def bubbleUp_def Let_def)

lemma length_sinkDown_loop [simp]:
  "length (sinkDown_loop items index item) = length items"
  by (induction items index item rule: sinkDown_loop.induct)
     (subst sinkDown_loop.simps, simp split: option.splits)

lemma length_dequeue [simp]: "length (snd (dequeue items)) = length items - 1"
  by (cases items rule: rev_cases) (simp_all add: dequeue_def isEmpty_def sinkDown_def Let_def)

lemma dequeue_None_iff: "fst (dequeue items) = None \<longleftrightarrow> isEmpty items"
  by (simp add: dequeue_def Let_def)

text \<open>Every name a search can meet: the keys of the edge map and the names of the nodes.\<close>

definition universe :: "graph \<Rightarrow> string set" where
  "universe g = set (map fst (edges g)) \<union> set (map (node_name \<circ> snd) (nodes g))"

lemma finite_universe [simp]: "finite (universe g)"
  by (simp add: universe_def)

lemma getNeighbors_universe:
  "(Some nd, c) \<in> set (getNeighbors g u) \<Longrightarrow> node_name nd \<in> universe g"
proof -
  assume a: "(Some nd, c) \<in> set (getNeighbors g u)"
  then obtain to where "map_of (nodes g) to = Some nd"
    by (cases "map_of (edges g) u") (auto simp: getNeighbors_def)
  then have "(to, nd) \<in> set (nodes g)" by (rule map_of_SomeD)
  then show ?thesis by (force simp: universe_def)
qed

lemma getNeighbors_outside: "u \<notin> universe g \<Longrightarrow> getNeighbors g u = []"
proof (cases "map_of (edges g) u")
  case None
  then show ?thesis by (simp add: getNeighbors_def)
next
  case (Some es)
  assume "u \<notin> universe g"
  moreover from Some have "(u, es) \<in> set (edges g)" by (rule map_of_SomeD)
  ultimately show ?thesis by (force simp: universe_def)
qed

text \<open>The number of names not yet visited; it bounds the rounds of every loop.\<close>

definition unvisited :: "graph \<Rightarrow> string set \<Rightarrow> nat" where
  "unvisited g visited = card (universe g - visited)"

lemma unvisited_insert:
  assumes "u \<in> universe g" "u \<notin> visited"
  shows "unvisited g visited = Suc (unvisited g (insert u visited))"
proof -
  have "universe g - visited = insert u (universe g - insert u visited)"
    using assms by auto
  moreover have "u \<notin> universe g - insert u visited" by simp
  ultimately show ?thesis
    unfolding unvisited_def by (metis card_insert_disjoint finite_Diff finite_universe)
qed

lemma unvisited_outside: "u \<notin> universe g \<Longrightarrow> unvisited g (insert u visited) = unvisited g visited"
proof -
  assume "u \<notin> universe g"
  then have "universe g - insert u visited = universe g - visited" by auto
  then show ?thesis by (simp add: unvisited_def)
qed

section \<open>The five strategies (class SearchAlgorithms)\<close>

text \<open>
  A \<open>for\<close> loop over an array whose body may throw: the body is run on each entry in
  turn, on the state the previous round left, and the first failure ends the loop.
\<close>

fun forEach :: "('a \<Rightarrow> 's \<Rightarrow> failure + 's) \<Rightarrow> 'a list \<Rightarrow> 's \<Rightarrow> failure + 's" where
  "forEach body [] s = Inr s"
| "forEach body (x # xs) s =
     (case body x s of Inl e \<Rightarrow> Inl e | Inr s' \<Rightarrow> forEach body xs s')"

lemma forEach_rule:
  assumes "forEach body xs s = Inr s'" and "I s"
    and "\<And>x t t'. x \<in> set xs \<Longrightarrow> I t \<Longrightarrow> body x t = Inr t' \<Longrightarrow> I t'"
  shows "I s'"
  using assms
proof (induction xs arbitrary: s)
  case Nil
  then show ?case by simp
next
  case (Cons x xs)
  from Cons.prems(1) obtain t where t: "body x s = Inr t" and rest: "forEach body xs t = Inr s'"
    by (auto split: sum.splits)
  have "I t" using Cons.prems(3) [of x s t] Cons.prems(2) t by simp
  show ?case
  proof (rule Cons.IH [OF rest \<open>I t\<close>])
    fix y u u'
    assume "y \<in> set xs" "I u" "body y u = Inr u'"
    then show "I u'" using Cons.prems(3) [of y u u'] by simp
  qed
qed

lemma forEach_append:
  "forEach body (xs @ ys) s =
     (case forEach body xs s of Inl e \<Rightarrow> Inl e | Inr t \<Rightarrow> forEach body ys t)"
  by (induction xs arbitrary: s) (auto split: sum.splits)

subsection \<open>Breadth-first search\<close>

text \<open>
  The body of the loop over the neighbours of \<open>current\<close>; \<open>neighbor.node.name\<close> throws
  when the node is \<open>undefined\<close>.
\<close>

fun bfs_visit ::
  "string \<Rightarrow> neighbor \<Rightarrow> string set \<times> parent_map \<times> string list \<Rightarrow>
   failure + (string set \<times> parent_map \<times> string list)" where
  "bfs_visit current (None, cost) (visited, parent, queue) = Inl TypeError"
| "bfs_visit current (Some nd, cost) (visited, parent, queue) =
     (let neighborName = node_name nd
      in if neighborName \<notin> visited then
           Inr (insert neighborName visited, parent(neighborName \<mapsto> Some current),
                queue @ [neighborName])
         else Inr (visited, parent, queue))"

lemma bfs_visit_measure:
  assumes "bfs_visit current nb (visited, parent, queue) = Inr (visited', parent', queue')"
    and "\<And>nd. fst nb = Some nd \<Longrightarrow> node_name nd \<in> universe g"
  shows "unvisited g visited' + length queue' = unvisited g visited + length queue"
proof (cases nb)
  case (Pair ndo c)
  show ?thesis
  proof (cases ndo)
    case None
    with Pair assms show ?thesis by simp
  next
    case (Some nd)
    with Pair assms(2) have "node_name nd \<in> universe g" by simp
    then have "node_name nd \<notin> visited \<Longrightarrow>
               unvisited g visited = Suc (unvisited g (insert (node_name nd) visited))"
      by (rule unvisited_insert)
    with Pair Some assms(1) show ?thesis by (auto simp: Let_def split: if_splits)
  qed
qed

lemma bfs_neighbors_measure:
  assumes "forEach (bfs_visit current) (getNeighbors g u) (visited, parent, queue)
           = Inr (visited', parent', queue')"
  shows "unvisited g visited' + length queue' = unvisited g visited + length queue"
proof -
  let ?I = "\<lambda>(v, p, q). unvisited g v + length q = unvisited g visited + length queue"
  have "?I (visited', parent', queue')"
  proof (rule forEach_rule [OF assms, where I = ?I], goal_cases)
    case 1
    show ?case by simp
  next
    case (2 x t t')
    obtain v p q v' p' q' where t: "t = (v, p, q)" "t' = (v', p', q')"
      by (metis prod_cases3)
    have "\<And>nd. fst x = Some nd \<Longrightarrow> node_name nd \<in> universe g"
      using 2(1) getNeighbors_universe by (metis prod.collapse)
    from bfs_visit_measure [OF 2(3) [unfolded t] this] 2(2) show ?case by (simp add: t)
  qed
  then show ?thesis by simp
qed

function bfs_loop ::
  "graph \<Rightarrow> string \<Rightarrow> string \<Rightarrow> string list \<Rightarrow> string set \<Rightarrow> parent_map \<Rightarrow> string list \<Rightarrow>
   failure + result" where
  "bfs_loop g start goal [] visited parent explored =
     buildResult g start goal parent explored False None"
| "bfs_loop g start goal (current # queue) visited parent explored =
     (let explored = explored @ [current]
      in if current = goal then buildResult g start goal parent explored True None
         else
           (case forEach (bfs_visit current) (getNeighbors g current) (visited, parent, queue) of
              Inl e \<Rightarrow> Inl e
            | Inr (visited', parent', queue') \<Rightarrow>
                bfs_loop g start goal queue' visited' parent' explored))"
  by pat_completeness auto
termination
  by (relation "measure (\<lambda>(g, start, goal, queue, visited, parent, explored).
                    unvisited g visited + length queue)")
     (auto dest!: bfs_neighbors_measure)

definition bfs :: "graph \<Rightarrow> string \<Rightarrow> string \<Rightarrow> failure + result" where
  "bfs g start goal = bfs_loop g start goal [start] {start} [start \<mapsto> None] []"

subsection \<open>Depth-first search\<close>

text \<open>
  The stack is the array: \<open>push\<close> appends, \<open>pop\<close> takes the last entry. The neighbour loop
  runs from the last neighbour to the first, so it is given the reversed list.
\<close>

fun dfs_visit ::
  "string \<Rightarrow> string set \<Rightarrow> neighbor \<Rightarrow> parent_map \<times> string list \<Rightarrow>
   failure + (parent_map \<times> string list)" where
  "dfs_visit current visited (None, cost) (parent, stack) = Inl TypeError"
| "dfs_visit current visited (Some nd, cost) (parent, stack) =
     (let neighborName = node_name nd
      in if neighborName \<notin> visited then
           Inr (if parent neighborName = None then parent(neighborName \<mapsto> Some current)
                else parent,
                stack @ [neighborName])
         else Inr (parent, stack))"

function dfs_loop ::
  "graph \<Rightarrow> string \<Rightarrow> string \<Rightarrow> string list \<Rightarrow> string set \<Rightarrow> parent_map \<Rightarrow> string list \<Rightarrow>
   failure + result" where
  "dfs_loop g start goal stack visited parent explored =
     (if length stack > 0 then
        (let current = last stack;
             stack = butlast stack
         in if current \<in> visited then dfs_loop g start goal stack visited parent explored
            else
              (let visited = insert current visited;
                   explored = explored @ [current]
               in if current = goal then buildResult g start goal parent explored True None
                  else
                    (case forEach (dfs_visit current visited) (rev (getNeighbors g current))
                            (parent, stack) of
                       Inl e \<Rightarrow> Inl e
                     | Inr (parent', stack') \<Rightarrow>
                         dfs_loop g start goal stack' visited parent' explored)))
      else buildResult g start goal parent explored False None)"
  by pat_completeness auto
termination
proof (relation "measures [\<lambda>(g, start, goal, stack, visited, parent, explored).
                             unvisited g visited,
                           \<lambda>(g, start, goal, stack, visited, parent, explored).
                             length stack]", goal_cases)
  case 1
  show ?case by simp
next
  case (2 g start goal stack visited parent explored)
  then show ?case by simp
next
  case (3 g start goal stack visited parent explored x xa xb xc xd y)
  show ?case
  proof (cases "last stack \<in> universe g")
    case True
    with 3 show ?thesis by (simp add: unvisited_insert)
  next
    case False
    with 3 show ?thesis by (auto simp: getNeighbors_outside unvisited_outside)
  qed
qed

declare dfs_loop.simps [simp del]

definition dfs :: "graph \<Rightarrow> string \<Rightarrow> string \<Rightarrow> failure + result" where
  "dfs g start goal = dfs_loop g start goal [start] {} [start \<mapsto> None] []"

subsection \<open>Uniform-cost search\<close>

text \<open>
  \<open>cost.get(current)\<close> is read in every round of the neighbour loop. It is \<open>undefined\<close>
  only for a vertex without a cost entry; \<open>undefined + cost\<close> is \<open>NaN\<close>, which the model
  does not have, so that round is the failure \<open>NotANumber\<close>. Every dequeued vertex has an
  entry (it was given one when it was enqueued), so no run from \<open>ucs\<close> gets there.
\<close>

fun ucs_visit ::
  "string \<Rightarrow> neighbor \<Rightarrow> string pqueue \<times> parent_map \<times> (string \<rightharpoonup> number) \<Rightarrow>
   failure + (string pqueue \<times> parent_map \<times> (string \<rightharpoonup> number))" where
  "ucs_visit current (None, c) (pQueue, parent, cost) = Inl TypeError"
| "ucs_visit current (Some nd, c) (pQueue, parent, cost) =
     (let neighborName = node_name nd
      in case cost current of
           None \<Rightarrow> Inl NotANumber
         | Some costCurrent \<Rightarrow>
             (let newCost = number_add costCurrent c
              in if (case cost neighborName of None \<Rightarrow> True | Some old \<Rightarrow> newCost < old) then
                   Inr (enqueue pQueue neighborName newCost,
                        parent(neighborName \<mapsto> Some current),
                        cost(neighborName \<mapsto> newCost))
                 else Inr (pQueue, parent, cost)))"

text \<open>
  \<open>dequeue\<close> returns \<open>null\<close> on an empty queue only, which the loop condition excludes;
  the branch for it is there because the function is total.
\<close>

function ucs_loop ::
  "graph \<Rightarrow> string \<Rightarrow> string \<Rightarrow> string pqueue \<Rightarrow> string set \<Rightarrow> parent_map \<Rightarrow>
   (string \<rightharpoonup> number) \<Rightarrow> string list \<Rightarrow> failure + result" where
  "ucs_loop g start goal pQueue visited parent cost explored =
     (if \<not> isEmpty pQueue then
        (case dequeue pQueue of
           (None, pQueue) \<Rightarrow> Inl TypeError
         | (Some current, pQueue) \<Rightarrow>
             if current \<in> visited then
               ucs_loop g start goal pQueue visited parent cost explored
             else
               (let visited = insert current visited;
                    explored = explored @ [current]
                in if current = goal then
                     buildResult g start goal parent explored True (Some cost)
                   else
                     (case forEach (ucs_visit current) (getNeighbors g current)
                             (pQueue, parent, cost) of
                        Inl e \<Rightarrow> Inl e
                      | Inr (pQueue', parent', cost') \<Rightarrow>
                          ucs_loop g start goal pQueue' visited parent' cost' explored)))
      else buildResult g start goal parent explored False None)"
  by pat_completeness auto
termination
proof (relation "measures [\<lambda>(g, start, goal, pQueue, visited, parent, cost, explored).
                             unvisited g visited,
                           \<lambda>(g, start, goal, pQueue, visited, parent, cost, explored).
                             length pQueue]", goal_cases)
  case 1
  show ?case by simp
next
  case (2 g start goal pQueue visited parent cost explored x y current)
  then have "y = snd (dequeue pQueue)" "pQueue \<noteq> []"
    by (auto simp: isEmpty_def dest: arg_cong [where f = snd])
  then show ?case by simp
next
  case (3 g start goal pQueue visited parent cost explored x y current xa xb xc xd ya xe z)
  then have y: "y = snd (dequeue pQueue)" "pQueue \<noteq> []"
    by (auto simp: isEmpty_def dest: arg_cong [where f = snd])
  show ?case
  proof (cases "current \<in> universe g")
    case True
    with 3 show ?thesis by (simp add: unvisited_insert)
  next
    case False
    with 3 y show ?thesis by (auto simp: getNeighbors_outside unvisited_outside)
  qed
qed

declare ucs_loop.simps [simp del]

definition ucs :: "graph \<Rightarrow> string \<Rightarrow> string \<Rightarrow> failure + result" where
  "ucs g start goal =
     ucs_loop g start goal (enqueue [] start 0) {} [start \<mapsto> None] [start \<mapsto> 0] []"

subsection \<open>A* search\<close>

text \<open>
  As in \<open>ucs\<close>, a missing \<open>gScore\<close> entry for \<open>current\<close> is the failure \<open>NotANumber\<close>.
  \<open>fScore\<close> is written and, but for the start's entry, never read.
\<close>

fun astar_visit ::
  "string \<Rightarrow> neighbor \<Rightarrow>
   string pqueue \<times> parent_map \<times> (string \<rightharpoonup> number) \<times> (string \<rightharpoonup> number) \<Rightarrow>
   failure + (string pqueue \<times> parent_map \<times> (string \<rightharpoonup> number) \<times> (string \<rightharpoonup> number))" where
  "astar_visit current (None, c) (pQueue, parent, gScore, fScore) = Inl TypeError"
| "astar_visit current (Some nd, c) (pQueue, parent, gScore, fScore) =
     (let neighborName = node_name nd
      in case gScore current of
           None \<Rightarrow> Inl NotANumber
         | Some gCurrent \<Rightarrow>
             (let tentativeGScore = number_add gCurrent c
              in if (case gScore neighborName of None \<Rightarrow> True
                     | Some old \<Rightarrow> tentativeGScore < old) then
                   (let hScore = node_h nd;
                        fScoreValue = number_add tentativeGScore hScore
                    in Inr (enqueue pQueue neighborName fScoreValue,
                            parent(neighborName \<mapsto> Some current),
                            gScore(neighborName \<mapsto> tentativeGScore),
                            fScore(neighborName \<mapsto> fScoreValue)))
                 else Inr (pQueue, parent, gScore, fScore)))"

function astar_loop ::
  "graph \<Rightarrow> string \<Rightarrow> string \<Rightarrow> string pqueue \<Rightarrow> string set \<Rightarrow> parent_map \<Rightarrow>
   (string \<rightharpoonup> number) \<Rightarrow> (string \<rightharpoonup> number) \<Rightarrow> string list \<Rightarrow> failure + result" where
  "astar_loop g start goal pQueue visited parent gScore fScore explored =
     (if \<not> isEmpty pQueue then
        (case dequeue pQueue of
           (None, pQueue) \<Rightarrow> Inl TypeError
         | (Some current, pQueue) \<Rightarrow>
             if current \<in> visited then
               astar_loop g start goal pQueue visited parent gScore fScore explored
             else
               (let visited = insert current visited;
                    explored = explored @ [current]
                in if current = goal then
                     buildResult g start goal parent explored True (Some gScore)
                   else
                     (case forEach (astar_visit current) (getNeighbors g current)
                             (pQueue, parent, gScore, fScore) of
                        Inl e \<Rightarrow> Inl e
                      | Inr (pQueue', parent', gScore', fScore') \<Rightarrow>
                          astar_loop g start goal pQueue' visited parent' gScore' fScore'
                            explored)))
      else buildResult g start goal parent explored False None)"
  by pat_completeness auto
termination
proof (relation "measures [\<lambda>(g, start, goal, pQueue, visited, parent, gScore, fScore, explored).
                             unvisited g visited,
                           \<lambda>(g, start, goal, pQueue, visited, parent, gScore, fScore, explored).
                             length pQueue]", goal_cases)
  case 1
  show ?case by simp
next
  case (2 g start goal pQueue visited parent gScore fScore explored x y current)
  then have "y = snd (dequeue pQueue)" "pQueue \<noteq> []"
    by (auto simp: isEmpty_def dest: arg_cong [where f = snd])
  then show ?case by simp
next
  case (3 g start goal pQueue visited parent gScore fScore explored x y current)
  then have y: "y = snd (dequeue pQueue)" "pQueue \<noteq> []"
    by (auto simp: isEmpty_def dest: arg_cong [where f = snd])
  show ?case
  proof (cases "current \<in> universe g")
    case True
    with 3 show ?thesis by (simp add: unvisited_insert)
  next
    case False
    with 3 y show ?thesis by (auto simp: getNeighbors_outside unvisited_outside)
  qed
qed

declare astar_loop.simps [simp del]

text \<open>\<open>startNode.h\<close> throws when \<open>getNode\<close> returned \<open>null\<close>.\<close>

definition astar :: "graph \<Rightarrow> string \<Rightarrow> string \<Rightarrow> failure + result" where
  "astar g start goal =
     (case getNode g start of
        None \<Rightarrow> Inl TypeError
      | Some startNode \<Rightarrow>
          astar_loop g start goal (enqueue [] start (node_h startNode)) {} [start \<mapsto> None]
            [start \<mapsto> 0] [start \<mapsto> node_h startNode] [])"

subsection \<open>Greedy best-first search\<close>

fun greedy_visit ::
  "string \<Rightarrow> string set \<Rightarrow> neighbor \<Rightarrow>
   string pqueue \<times> parent_map \<times> (string \<rightharpoonup> number) \<Rightarrow>
   failure + (string pqueue \<times> parent_map \<times> (string \<rightharpoonup> number))" where
  "greedy_visit current visited (None, c) (pQueue, parent, cost) = Inl TypeError"
| "greedy_visit current visited (Some nd, c) (pQueue, parent, cost) =
     (let neighborName = node_name nd
      in if neighborName \<notin> visited then
           (if parent neighborName = None then
              (case cost current of
                 None \<Rightarrow> Inl NotANumber
               | Some costCurrent \<Rightarrow>
                   Inr (enqueue pQueue neighborName (node_h nd),
                        parent(neighborName \<mapsto> Some current),
                        cost(neighborName \<mapsto> number_add costCurrent c)))
            else Inr (enqueue pQueue neighborName (node_h nd), parent, cost))
         else Inr (pQueue, parent, cost))"

function greedy_loop ::
  "graph \<Rightarrow> string \<Rightarrow> string \<Rightarrow> string pqueue \<Rightarrow> string set \<Rightarrow> parent_map \<Rightarrow>
   (string \<rightharpoonup> number) \<Rightarrow> string list \<Rightarrow> failure + result" where
  "greedy_loop g start goal pQueue visited parent cost explored =
     (if \<not> isEmpty pQueue then
        (case dequeue pQueue of
           (None, pQueue) \<Rightarrow> Inl TypeError
         | (Some current, pQueue) \<Rightarrow>
             if current \<in> visited then
               greedy_loop g start goal pQueue visited parent cost explored
             else
               (let visited = insert current visited;
                    explored = explored @ [current]
                in if current = goal then
                     buildResult g start goal parent explored True (Some cost)
                   else
                     (case forEach (greedy_visit current visited) (getNeighbors g current)
                             (pQueue, parent, cost) of
                        Inl e \<Rightarrow> Inl e
                      | Inr (pQueue', parent', cost') \<Rightarrow>
                          greedy_loop g start goal pQueue' visited parent' cost' explored)))
      else buildResult g start goal parent explored False None)"
  by pat_completeness auto
termination
proof (relation "measures [\<lambda>(g, start, goal, pQueue, visited, parent, cost, explored).
                             unvisited g visited,
                           \<lambda>(g, start, goal, pQueue, visited, parent, cost, explored).
                             length pQueue]", goal_cases)
  case 1
  show ?case by simp
next
  case (2 g start goal pQueue visited parent cost explored x y current)
  then have "y = snd (dequeue pQueue)" "pQueue \<noteq> []"
    by (auto simp: isEmpty_def dest: arg_cong [where f = snd])
  then show ?case by simp
next
  case (3 g start goal pQueue visited parent cost explored x y current)
  then have y: "y = snd (dequeue pQueue)" "pQueue \<noteq> []"
    by (auto simp: isEmpty_def dest: arg_cong [where f = snd])
  show ?case
  proof (cases "current \<in> universe g")
    case True
    with 3 show ?thesis by (simp add: unvisited_insert)
  next
    case False
    with 3 y show ?thesis by (auto simp: getNeighbors_outside unvisited_outside)
  qed
qed

declare greedy_loop.simps [simp del]

definition greedy :: "graph \<Rightarrow> string \<Rightarrow> string \<Rightarrow> failure + result" where
  "greedy g start goal =
     (case getNode g start of
        None \<Rightarrow> Inl TypeError
      | Some startNode \<Rightarrow>
          greedy_loop g start goal (enqueue [] start (node_h startNode)) {} [start \<mapsto> None]
            [start \<mapsto> 0] [])"

text \<open>The graph that \<open>new Graph()\<close> builds, as a value.\<close>

definition defaultGraph :: graph where
  "defaultGraph = (case newGraph of Inr g \<Rightarrow> g | Inl e \<Rightarrow> \<lparr>nodes = [], edges = []\<rparr>)"

section \<open>Notions the properties are stated with\<close>

text \<open>
  The heap order on the array: no entry has a smaller priority than its parent, the entry
  at \<open>floor((j - 1) / 2)\<close>.
\<close>

definition is_heap :: "'a pqueue \<Rightarrow> bool" where
  "is_heap items = (\<forall>j \<in> {1..<length items}. priority (items ! ((j - 1) div 2)) \<le> priority (items ! j))"

text \<open>
  While an entry moves up, the array with the entry written at \<open>i\<close> is ordered everywhere
  but between \<open>i\<close> and its parent, and the children of \<open>i\<close> are above that parent.
\<close>

definition up_inv :: "'a pqueue \<Rightarrow> nat \<Rightarrow> bool" where
  "up_inv ys i \<longleftrightarrow>
     (\<forall>j. 0 < j \<and> j < length ys \<and> j \<noteq> i \<longrightarrow>
        priority (ys ! ((j - 1) div 2)) \<le> priority (ys ! j)) \<and>
     (\<forall>j. 0 < i \<and> 0 < j \<and> j < length ys \<and> (j - 1) div 2 = i \<longrightarrow>
        priority (ys ! ((i - 1) div 2)) \<le> priority (ys ! j))"

text \<open>
  While an entry moves down, the array with the entry written at \<open>i\<close> is ordered
  everywhere but between \<open>i\<close> and its children, and those children are above the parent
  of \<open>i\<close>.
\<close>

definition down_inv :: "'a pqueue \<Rightarrow> nat \<Rightarrow> bool" where
  "down_inv ys i \<longleftrightarrow>
     (\<forall>j. 0 < j \<and> j < length ys \<and> (j - 1) div 2 \<noteq> i \<longrightarrow>
        priority (ys ! ((j - 1) div 2)) \<le> priority (ys ! j)) \<and>
     (\<forall>j. 0 < i \<and> 0 < j \<and> j < length ys \<and> (j - 1) div 2 = i \<longrightarrow>
        priority (ys ! ((i - 1) div 2)) \<le> priority (ys ! j))"

text \<open>
  A run of \<open>enqueue(element, priority)\<close> calls, and \<open>n\<close> calls of \<open>dequeue\<close> collecting what
  they return.
\<close>

fun enqueueAll :: "'a pqueue \<Rightarrow> ('a \<times> number) list \<Rightarrow> 'a pqueue" where
  "enqueueAll items [] = items"
| "enqueueAll items ((e, p) # calls) = enqueueAll (enqueue items e p) calls"

fun dequeueN :: "nat \<Rightarrow> 'a pqueue \<Rightarrow> 'a option list \<times> 'a pqueue" where
  "dequeueN 0 items = ([], items)"
| "dequeueN (Suc n) items =
     (let (x, items) = dequeue items;
          (xs, items) = dequeueN n items
      in (x # xs, items))"

definition mkItem :: "'a \<times> number \<Rightarrow> 'a item" where
  "mkItem c = \<lparr>element = fst c, priority = snd c\<rparr>"

text \<open>
  \<open>edge g u v c\<close>: the edge list of \<open>u\<close> has an edge to \<open>v\<close> with cost \<open>c\<close>.
\<close>

definition edge :: "graph \<Rightarrow> string \<Rightarrow> string \<Rightarrow> number \<Rightarrow> bool" where
  "edge g u v c = (case map_of (edges g) u of None \<Rightarrow> False | Some es \<Rightarrow> (v, c) \<in> set es)"

text \<open>\<open>walk g u c v\<close>: directed edges lead from \<open>u\<close> to \<open>v\<close>, their costs add up to \<open>c\<close>.\<close>

inductive walk :: "graph \<Rightarrow> string \<Rightarrow> number \<Rightarrow> string \<Rightarrow> bool" for g where
  walk_refl: "walk g u 0 u"
| walk_step: "edge g u v c \<Longrightarrow> walk g v d w \<Longrightarrow> walk g u (c + d) w"

definition reachable :: "graph \<Rightarrow> string \<Rightarrow> string \<Rightarrow> bool" where
  "reachable g u v = (\<exists>c. walk g u c v)"

text \<open>
  The graphs of the data model, which \<open>addNode\<close>, \<open>addEdge\<close> (called with a cost that is
  not negative; the form that calls it rejects a cost below 1) and \<open>removeNode\<close> keep
  to: a node is stored under its own name, every edge leads to a node, and no cost is
  negative.
\<close>

definition wf_graph :: "graph \<Rightarrow> bool" where
  "wf_graph g \<longleftrightarrow>
     (\<forall>(k, nd) \<in> set (nodes g). node_name nd = k) \<and>
     (\<forall>(u, es) \<in> set (edges g). \<forall>(v, c) \<in> set es. getNode g v \<noteq> None \<and> 0 \<le> c)"

text \<open>
  \<open>rooted start parent v\<close>: following the predecessor map from \<open>v\<close> ends at \<open>start\<close>, the
  only vertex whose predecessor is \<open>null\<close>.
\<close>

inductive rooted :: "string \<Rightarrow> parent_map \<Rightarrow> string \<Rightarrow> bool" for start parent where
  rooted_start: "parent start = Some None \<Longrightarrow> rooted start parent start"
| rooted_step: "parent v = Some (Some u) \<Longrightarrow> rooted start parent u \<Longrightarrow> rooted start parent v"

text \<open>What every strategy's result satisfies on a graph of the data model.\<close>

definition search_post :: "graph \<Rightarrow> string \<Rightarrow> string \<Rightarrow> result \<Rightarrow> bool" where
  "search_post g start goal r \<longleftrightarrow>
     distinct (exploredOrder r) \<and>
     nodesExplored r = length (exploredOrder r) \<and>
     (\<forall>v \<in> set (exploredOrder r). reachable g start v) \<and>
     (found r \<longrightarrow> goal \<in> set (exploredOrder r)) \<and>
     (\<not> found r \<longrightarrow>
        path r = [] \<and> pathCost r = 0 \<and> goal \<notin> set (exploredOrder r) \<and>
        (\<forall>v. reachable g start v \<longrightarrow> v \<in> set (exploredOrder r)))"



text \<open>The vertices that have an entry in the queue.\<close>

definition elems :: "string pqueue \<Rightarrow> string set" where
  "elems pQueue = element ` set pQueue"

text \<open>
  \<open>chained g start parent cost v\<close>: the predecessor map leads from \<open>v\<close> back to \<open>start\<close>, and
  along the way each cost entry is the predecessor's entry plus the cost of the first
  edge from the predecessor.
\<close>

inductive chained ::
  "graph \<Rightarrow> string \<Rightarrow> parent_map \<Rightarrow> (string \<rightharpoonup> number) \<Rightarrow> string \<Rightarrow> bool"
  for g start parent cost where
  chained_start: "parent start = Some None \<Longrightarrow> cost start = Some 0 \<Longrightarrow>
                  chained g start parent cost start"
| chained_step: "parent v = Some (Some u) \<Longrightarrow> chained g start parent cost u \<Longrightarrow>
                 cost u = Some a \<Longrightarrow> findNeighbor (getNeighbors g u) v = Inr (Some e) \<Longrightarrow>
                 cost v = Some (number_add a e) \<Longrightarrow> chained g start parent cost v"

definition greedy_inv ::
  "graph \<Rightarrow> string \<Rightarrow> string \<Rightarrow> string pqueue \<Rightarrow> string set \<Rightarrow> parent_map \<Rightarrow>
   (string \<rightharpoonup> number) \<Rightarrow> string list \<Rightarrow> bool" where
  "greedy_inv g start goal pQueue visited parent cost explored \<longleftrightarrow>
     distinct explored \<and> visited = set explored \<and> goal \<notin> visited \<and>
     start \<in> visited \<union> elems pQueue \<and>
     (\<forall>v. parent v \<noteq> None \<longrightarrow> chained g start parent cost v) \<and>
     (\<forall>v \<in> visited \<union> elems pQueue. reachable g start v \<and> parent v \<noteq> None) \<and>
     (\<forall>u \<in> visited. \<forall>v c. edge g u v c \<longrightarrow> v \<in> visited \<union> elems pQueue)"



text \<open>The heuristic value of a vertex: the \<open>h\<close> of its node.\<close>

definition heuristic :: "graph \<Rightarrow> string \<Rightarrow> number" where
  "heuristic g v = (case getNode g v of None \<Rightarrow> 0 | Some nd \<Rightarrow> node_h nd)"

text \<open>
  A consistent heuristic drops along an edge by no more than the edge's cost; an
  admissible one never exceeds the cost of a walk to the goal.
\<close>

definition consistent :: "graph \<Rightarrow> bool" where
  "consistent g \<longleftrightarrow>
     (\<forall>(u, es) \<in> set (edges g). \<forall>(v, c) \<in> set es. heuristic g u \<le> c + heuristic g v)"


text \<open>\<open>min_cost g s t c\<close>: \<open>c\<close> is the least total cost of a walk from \<open>s\<close> to \<open>t\<close>.\<close>

definition min_cost :: "graph \<Rightarrow> string \<Rightarrow> string \<Rightarrow> number \<Rightarrow> bool" where
  "min_cost g s t c \<longleftrightarrow> walk g s c t \<and> (\<forall>d. walk g s d t \<longrightarrow> c \<le> d)"






text \<open>
  A four-vertex graph as \<open>addNode\<close> and \<open>addEdge\<close> build it (directed edges S-C:3, S-A:1,
  A-C:1, C-G:5; every heuristic value 0 but that of A, which is the parameter). \<open>plateau\<close>
  below is the same graph with one heuristic value, the parameter, at every vertex.
\<close>

definition diamond :: "number \<Rightarrow> graph" where
  "diamond hA =
     \<lparr>nodes = [(''S'', \<lparr>node_name = ''S'', node_x = 0, node_y = 0, node_h = 0\<rparr>),
               (''A'', \<lparr>node_name = ''A'', node_x = 100, node_y = 0, node_h = hA\<rparr>),
               (''C'', \<lparr>node_name = ''C'', node_x = 100, node_y = 100, node_h = 0\<rparr>),
               (''G'', \<lparr>node_name = ''G'', node_x = 200, node_y = 100, node_h = 0\<rparr>)],
      edges = [(''S'', [(''C'', 3), (''A'', 1)]), (''A'', [(''C'', 1)]), (''C'', [(''G'', 5)]),
               (''G'', [])]\<rparr>"

text \<open>
  Two three-vertex graphs as \<open>addNode\<close> and \<open>addEdge\<close> build them, every heuristic value 0:
  one with a negative cost (the bidirectional edge S-A of cost -1 and the directed edge
  A-G of cost 5), one with a cost of \<open>2^53\<close> (directed edges S-A of cost \<open>2^53\<close> and A-G of
  cost 1).
\<close>

definition plateau :: "number \<Rightarrow> graph" where
  "plateau h =
     \<lparr>nodes = [(''S'', \<lparr>node_name = ''S'', node_x = 0, node_y = 0, node_h = h\<rparr>),
               (''A'', \<lparr>node_name = ''A'', node_x = 100, node_y = 0, node_h = h\<rparr>),
               (''C'', \<lparr>node_name = ''C'', node_x = 100, node_y = 100, node_h = h\<rparr>),
               (''G'', \<lparr>node_name = ''G'', node_x = 200, node_y = 100, node_h = h\<rparr>)],
      edges = [(''S'', [(''C'', 3), (''A'', 1)]), (''A'', [(''C'', 1)]), (''C'', [(''G'', 5)]),
               (''G'', [])]\<rparr>"

definition discount :: graph where
  "discount =
     \<lparr>nodes = [(''S'', \<lparr>node_name = ''S'', node_x = 0, node_y = 0, node_h = 0\<rparr>),
               (''A'', \<lparr>node_name = ''A'', node_x = 100, node_y = 0, node_h = 0\<rparr>),
               (''G'', \<lparr>node_name = ''G'', node_x = 200, node_y = 0, node_h = 0\<rparr>)],
      edges = [(''S'', [(''A'', - 1)]), (''A'', [(''S'', - 1), (''G'', 5)]), (''G'', [])]\<rparr>"

definition toll :: graph where
  "toll =
     \<lparr>nodes = [(''S'', \<lparr>node_name = ''S'', node_x = 0, node_y = 0, node_h = 0\<rparr>),
               (''A'', \<lparr>node_name = ''A'', node_x = 100, node_y = 0, node_h = 0\<rparr>),
               (''G'', \<lparr>node_name = ''G'', node_x = 200, node_y = 0, node_h = 0\<rparr>)],
      edges = [(''S'', [(''A'', 9007199254740992)]), (''A'', [(''G'', 1)]), (''G'', [])]\<rparr>"


section \<open>Properties of the numbers\<close>

text \<open>
  Rounding keeps the order, leaves a double as it is, and is exact on the integers up to
  \<open>2^53\<close> in size.
\<close>

subsection \<open>Powers of two and exponents\<close>

lemma pow2_pos [simp]: "0 < (2::rat) powi k"
  by (simp add: power_int_def)

lemma pow2_mono: "j \<le> k \<Longrightarrow> (2::rat) powi j \<le> 2 powi k"
  by (rule power_int_increasing) simp_all

lemma pow2_strict_mono: "j < k \<Longrightarrow> (2::rat) powi j < 2 powi k"
  by (rule power_int_strict_increasing) simp_all

lemma pow2_split: "(2::rat) powi (j + k) = 2 powi j * 2 powi k"
  by (simp add: power_int_add)

lemma pow2_52: "(2::rat) powi e = 2 ^ 52 * 2 powi (e - 52)"
  using pow2_split [of 52 "e - 52"] by simp

lemma pow2_53: "(2::rat) powi (e + 1) = 2 ^ 53 * 2 powi (e - 52)"
  using pow2_split [of 53 "e - 52"] by (simp add: add.commute)

lemma pow2_less_imp: "(2::rat) powi j < 2 powi k \<Longrightarrow> j < k"
  using pow2_mono [of k j] by (cases "j < k") auto

lemma exponent_bounds:
  assumes "0 < x"
  shows "2 powi exponent x \<le> x" "x < 2 powi (exponent x + 1)"
proof -
  obtain a b where q: "quotient_of x = (a, b)" by (cases "quotient_of x") auto
  have b: "0 < b" using quotient_of_denom_pos [OF q] .
  have x: "x = of_int a / of_int b" using quotient_of_div [OF q] .
  have a: "0 < a" using assms b unfolding x by (simp add: zero_less_divide_iff)
  let ?k = "bitlen a - bitlen b"
  from bitlen_bounds [OF a] have a1: "(2::rat) ^ nat (bitlen a - 1) \<le> of_int a"
    and a2: "of_int a < (2::rat) ^ nat (bitlen a)"
    by (metis of_int_le_iff of_int_numeral of_int_power, metis of_int_less_iff of_int_numeral of_int_power)
  from bitlen_bounds [OF b] have b1: "(2::rat) ^ nat (bitlen b - 1) \<le> of_int b"
    and b2: "of_int b < (2::rat) ^ nat (bitlen b)"
    by (metis of_int_le_iff of_int_numeral of_int_power, metis of_int_less_iff of_int_numeral of_int_power)
  have la: "1 \<le> bitlen a" using a bitlen_eq_zero_iff [of a] bitlen_nonneg [of a] by linarith
  have lb: "1 \<le> bitlen b" using b bitlen_eq_zero_iff [of b] bitlen_nonneg [of b] by linarith
  have pa1: "(2::rat) ^ nat (bitlen a - 1) = 2 powi (bitlen a - 1)" using la by (simp add: power_int_def)
  have pa2: "(2::rat) ^ nat (bitlen a) = 2 powi (bitlen a)" using la by (simp add: power_int_def)
  have pb1: "(2::rat) ^ nat (bitlen b - 1) = 2 powi (bitlen b - 1)" using lb by (simp add: power_int_def)
  have pb2: "(2::rat) ^ nat (bitlen b) = 2 powi (bitlen b)" using lb by (simp add: power_int_def)
  have bpos: "(0::rat) < of_int b" using b by simp
  have up: "x < 2 powi (?k + 1)"
  proof -
    have "of_int a < (2::rat) powi (bitlen a)" using a2 pa2 by simp
    also have "\<dots> = 2 powi (?k + 1) * 2 powi (bitlen b - 1)"
      by (simp add: power_int_add [symmetric])
    also have "\<dots> \<le> 2 powi (?k + 1) * of_int b"
      using b1 pb1 by (simp add: mult_left_mono)
    finally show ?thesis unfolding x using bpos by (simp add: pos_divide_less_eq)
  qed
  have lo: "2 powi (?k - 1) < x"
  proof -
    have "2 powi (?k - 1) * of_int b < (2::rat) powi (?k - 1) * 2 powi (bitlen b)"
      using b2 pb2 by (simp add: mult_strict_left_mono)
    also have "\<dots> = 2 powi (bitlen a - 1)" by (simp add: power_int_add [symmetric])
    also have "\<dots> \<le> of_int a" using a1 pa1 by simp
    finally show ?thesis unfolding x using bpos by (simp add: pos_less_divide_eq)
  qed
  show "2 powi exponent x \<le> x"
    using lo by (auto simp: exponent_def q Let_def)
  show "x < 2 powi (exponent x + 1)"
    using up by (auto simp: exponent_def q Let_def not_le)
qed

lemma exponent_unique:
  assumes "2 powi e \<le> x" "x < 2 powi (e + 1)"
  shows "exponent x = e"
proof -
  have "0 < x" using assms(1) pow2_pos [of e] by linarith
  note B = exponent_bounds [OF this]
  have "(2::rat) powi e < 2 powi (exponent x + 1)" using assms(1) B(2) by linarith
  then have "e < exponent x + 1" by (rule pow2_less_imp)
  moreover have "(2::rat) powi exponent x < 2 powi (e + 1)" using assms(2) B(1) by linarith
  then have "exponent x < e + 1" by (rule pow2_less_imp)
  ultimately show ?thesis by simp
qed

lemma roundTiesToEven_of_int [simp]: "roundTiesToEven (of_int n) = n"
  by (simp add: roundTiesToEven_def)

lemma roundTiesToEven_range: "\<lfloor>q\<rfloor> \<le> roundTiesToEven q" "roundTiesToEven q \<le> \<lfloor>q\<rfloor> + 1"
  by (simp_all add: roundTiesToEven_def Let_def)

lemma roundTiesToEven_mono:
  assumes "q \<le> r"
  shows "roundTiesToEven q \<le> roundTiesToEven r"
proof (cases "\<lfloor>q\<rfloor> = \<lfloor>r\<rfloor>")
  case True
  then show ?thesis using assms by (auto simp: roundTiesToEven_def Let_def)
next
  case False
  then have "\<lfloor>q\<rfloor> + 1 \<le> \<lfloor>r\<rfloor>" using floor_mono [OF assms] by simp
  then show ?thesis using roundTiesToEven_range(2) [of q] roundTiesToEven_range(1) [of r] by linarith
qed

lemma roundTiesToEven_ge: "of_int n \<le> q \<Longrightarrow> n \<le> roundTiesToEven q"
  using roundTiesToEven_mono [of "of_int n" q] by simp

lemma roundTiesToEven_le: "q \<le> of_int n \<Longrightarrow> roundTiesToEven q \<le> n"
  using roundTiesToEven_mono [of q "of_int n"] by simp

subsection \<open>Rounding a positive number\<close>

lemma nearest_bounds:
  assumes "0 < x"
  shows "2 powi exponent x \<le> nearest x" "nearest x \<le> 2 powi (exponent x + 1)"
proof -
  let ?e = "exponent x"
  let ?u = "(2::rat) powi (?e - 52)"
  note B = exponent_bounds [OF assms]
  have e1: "(2::rat) powi ?e = 2 ^ 52 * ?u" by (rule pow2_52)
  have e2: "(2::rat) powi (?e + 1) = 2 ^ 53 * ?u" by (rule pow2_53)
  have "of_int (2 ^ 52) \<le> x / ?u" using B(1) unfolding e1 by (simp add: pos_le_divide_eq)
  then have "2 ^ 52 \<le> roundTiesToEven (x / ?u)" by (rule roundTiesToEven_ge)
  then have "(2::rat) ^ 52 \<le> of_int (roundTiesToEven (x / ?u))"
    by (metis of_int_le_iff of_int_numeral of_int_power)
  then show "2 powi ?e \<le> nearest x"
    unfolding e1 nearest_def Let_def by (simp add: mult_right_mono)
  have "x / ?u \<le> of_int (2 ^ 53)" using B(2) unfolding e2 by (simp add: pos_divide_le_eq)
  then have "roundTiesToEven (x / ?u) \<le> 2 ^ 53" by (rule roundTiesToEven_le)
  then have "of_int (roundTiesToEven (x / ?u)) \<le> (2::rat) ^ 53"
    by (metis of_int_le_iff of_int_numeral of_int_power)
  then show "nearest x \<le> 2 powi (?e + 1)"
    unfolding e2 nearest_def Let_def by (simp add: mult_right_mono)
qed

lemma nearest_pos: "0 < x \<Longrightarrow> 0 < nearest x"
  using nearest_bounds(1) [of x] pow2_pos [of "exponent x"] by linarith


lemma nearest_exact:
  assumes "0 < k" "k \<le> 2 ^ 53"
  shows "nearest (of_int k * 2 powi j) = of_int k * 2 powi j"
proof -
  let ?x = "of_int k * (2::rat) powi j"
  have x: "0 < ?x" using assms(1) by simp
  let ?e = "exponent ?x"
  let ?u = "(2::rat) powi (?e - 52)"
  note B = exponent_bounds [OF x]
  have k: "of_int k \<le> (2::rat) ^ 53" using assms(2) by (metis of_int_le_iff of_int_numeral of_int_power)
  have "?x \<le> 2 ^ 53 * 2 powi j" using k by (simp add: mult_right_mono)
  also have "\<dots> = 2 powi (53 + j)" using power_int_add [of "2::rat" 53 j] by simp
  finally have xle: "?x \<le> 2 powi (53 + j)" .
  then have "(2::rat) powi ?e < 2 powi (53 + j + 1)"
    using B(1) pow2_strict_mono [of "53 + j" "53 + j + 1"] by linarith
  then have ele: "?e \<le> 53 + j" using pow2_less_imp by fastforce
  have "\<exists>m. ?x / ?u = of_int m"
  proof (cases "?e - 52 \<le> j")
    case True
    have "?x / ?u = of_int k * 2 powi (j - (?e - 52))"
      by (simp add: power_int_diff)
    also have "\<dots> = of_int k * 2 ^ nat (j - (?e - 52))" using True by (simp add: power_int_def)
    also have "\<dots> = of_int (k * 2 ^ nat (j - (?e - 52)))" by simp
    finally show ?thesis by blast
  next
    case False
    then have e: "?e = 53 + j" using ele by simp
    have "2 powi (53 + j) \<le> ?x" using B(1) unfolding e .
    then have xe: "?x = 2 powi (53 + j)" using xle by simp
    have "?x / ?u = 2 powi (53 + j) / 2 powi (53 + j - 52)" using xe e by simp
    also have "\<dots> = 2 powi 52" by (simp add: power_int_diff [symmetric])
    also have "\<dots> = of_int (2 ^ 52)" by simp
    finally show ?thesis by blast
  qed
  then obtain m where m: "?x / ?u = of_int m" by blast
  then have "?x = of_int m * ?u" by (simp add: field_simps)
  then show ?thesis unfolding nearest_def Let_def m by simp
qed

lemma nearest_idem:
  assumes "0 < x"
  shows "nearest (nearest x) = nearest x"
proof -
  let ?e = "exponent x"
  let ?u = "(2::rat) powi (?e - 52)"
  let ?n = "roundTiesToEven (x / ?u)"
  note B = exponent_bounds [OF assms]
  have e1: "(2::rat) powi ?e = 2 ^ 52 * ?u" by (rule pow2_52)
  have e2: "(2::rat) powi (?e + 1) = 2 ^ 53 * ?u" by (rule pow2_53)
  have "of_int (2 ^ 52) \<le> x / ?u" using B(1) unfolding e1 by (simp add: pos_le_divide_eq)
  then have n1: "2 ^ 52 \<le> ?n" by (rule roundTiesToEven_ge)
  have "x / ?u \<le> of_int (2 ^ 53)" using B(2) unfolding e2 by (simp add: pos_divide_le_eq)
  then have n2: "?n \<le> 2 ^ 53" by (rule roundTiesToEven_le)
  have "0 < ?n" using n1 by simp
  from nearest_exact [OF this n2, of "?e - 52"] show ?thesis
    unfolding nearest_def [of x] Let_def .
qed

subsection \<open>Rounding and adding\<close>

lemma to_double_0 [simp]: "to_double 0 = 0"
  by (simp add: to_double_def)


lemma to_double_pos: "0 < x \<Longrightarrow> to_double x = nearest x"
  by (simp add: to_double_def)

lemma to_double_minus: "to_double (- x) = - to_double x"
  by (simp add: to_double_def)



lemma to_double_idem [simp]: "to_double (to_double x) = to_double x"
proof -
  have pos: "to_double (to_double y) = to_double y" if "0 < y" for y
    using that nearest_pos [OF that] nearest_idem [OF that] by (simp add: to_double_pos)
  consider "0 < x" | "x = 0" | "x < 0" by linarith
  then show ?thesis
  proof cases
    case 1
    then show ?thesis by (rule pos)
  next
    case 2
    then show ?thesis by simp
  next
    case 3
    then have "0 < - x" by simp
    from pos [OF this] show ?thesis by (simp add: to_double_minus)
  qed
qed

lemma to_double_int:
  assumes "\<bar>k\<bar> \<le> 2 ^ 53"
  shows "to_double (of_int k) = of_int k"
proof -
  have pos: "to_double (of_int j) = of_int j" if "0 < j" "j \<le> 2 ^ 53" for j
    using nearest_exact [OF that, of 0] that(1) by (simp add: to_double_pos)
  consider "0 < k" | "k = 0" | "k < 0" by linarith
  then show ?thesis
  proof cases
    case 1
    then show ?thesis using pos [of k] assms by simp
  next
    case 2
    then show ?thesis by simp
  next
    case 3
    then have "0 < - k" "- k \<le> 2 ^ 53" using assms by auto
    from pos [OF this] show ?thesis using to_double_minus [of "of_int k"] by simp
  qed
qed

lemma to_double_number_add [simp]: "to_double (number_add a b) = number_add a b"
  by (simp add: number_add_def)


lemma number_add_0_left: "to_double a = a \<Longrightarrow> number_add 0 a = a"
  by (simp add: number_add_def)


lemma number_add_exact:
  assumes "a \<in> \<int>" "b \<in> \<int>" "\<bar>a + b\<bar> \<le> 2 ^ 53"
  shows "number_add a b = a + b"
proof -
  from assms(1,2) obtain i j where ij: "a = of_int i" "b = of_int j" by (auto elim!: Ints_cases)
  have "\<bar>i + j\<bar> \<le> 2 ^ 53"
  proof -
    have "rat_of_int \<bar>i + j\<bar> \<le> rat_of_int (2 ^ 53)" using assms(3) unfolding ij by simp
    then show ?thesis by (simp only: of_int_le_iff)
  qed
  from to_double_int [OF this] show ?thesis by (simp add: number_add_def ij)
qed

section \<open>Properties of the priority queue\<close>

text \<open>
  C9: \<open>dequeue()\<close> on an empty queue returns \<open>null\<close>, leaves the queue as it was, and
  \<open>isEmpty()\<close> is still true afterwards. The model has no exception on this path: the
  first statement of \<open>dequeue\<close> returns.
\<close>

theorem dequeue_empty:
  "dequeue ([] :: 'a pqueue) = (None, []) \<and> isEmpty (snd (dequeue ([] :: 'a pqueue)))"
  by (simp add: dequeue_def isEmpty_def)

lemma enqueue_empty: "enqueue [] e p = [\<lparr>element = e, priority = p\<rparr>]"
  by (simp add: enqueue_def bubbleUp_def bubbleUp_loop.simps)

lemma dequeue_single: "dequeue [x] = (Some (element x), [])"
  by (simp add: dequeue_def isEmpty_def)


lemma parent_child:
  "0 < (j::nat) \<Longrightarrow> (j - 1) div 2 = i \<longleftrightarrow> j = 2 * i + 1 \<or> j = 2 * i + 2"
  by arith

lemma parent_less: "0 < (j::nat) \<Longrightarrow> (j - 1) div 2 < j"
  by arith

subsection \<open>Multisets\<close>

lemma mset_update_swap:
  assumes "i < length xs" "p < length xs" "p \<noteq> i"
  shows "mset (xs[i := xs ! p, p := v]) = mset (xs[i := v])"
proof -
  have "mset ((xs[i := v])[p := (xs[i := v]) ! i, i := (xs[i := v]) ! p]) = mset (xs[i := v])"
    by (rule mset_swap) (use assms in auto)
  moreover have "(xs[i := v])[p := (xs[i := v]) ! i, i := (xs[i := v]) ! p] = xs[i := xs ! p, p := v]"
    using assms by (intro nth_equalityI) (auto simp: nth_list_update)
  ultimately show ?thesis by simp
qed

lemma mset_bubbleUp_loop:
  "index < length items \<Longrightarrow> mset (bubbleUp_loop items index item) = mset (items[index := item])"
proof (induction items index item rule: bubbleUp_loop.induct)
  case (1 items index item)
  show ?case
  proof (cases "index > 0 \<and> \<not> priority item \<ge> priority (items ! ((index - 1) div 2))")
    case False
    then show ?thesis by (subst bubbleUp_loop.simps) (auto simp: Let_def)
  next
    case True
    let ?p = "(index - 1) div 2"
    have p: "?p < index" using True by auto
    have "mset (bubbleUp_loop (items[index := items ! ?p]) ?p item)
          = mset (items[index := items ! ?p, ?p := item])"
      using 1(1) [OF _ refl refl] True p 1(2) by simp
    also have "\<dots> = mset (items[index := item])"
      using p 1(2) by (intro mset_update_swap) auto
    finally show ?thesis using True by (subst bubbleUp_loop.simps) (simp add: Let_def)
  qed
qed

lemma mset_enqueue: "mset (enqueue items e p) = add_mset \<lparr>element = e, priority = p\<rparr> (mset items)"
  by (simp add: enqueue_def bubbleUp_def Let_def mset_bubbleUp_loop)

lemma mset_sinkDown_loop:
  "index < length items \<Longrightarrow> mset (sinkDown_loop items index item) = mset (items[index := item])"
proof (induction items index item rule: sinkDown_loop.induct)
  case (1 items index item)
  show ?case
  proof (cases "swapIndex items index item")
    case None
    then show ?thesis by (subst sinkDown_loop.simps) simp
  next
    case (Some s)
    from swapIndex_range [OF Some] have s: "index < s" "s < length items" by auto
    have "mset (sinkDown_loop (items[index := items ! s]) s item)
          = mset (items[index := items ! s, s := item])"
      using 1(1) [OF Some] s by simp
    also have "\<dots> = mset (items[index := item])"
      using s 1(2) by (intro mset_update_swap) auto
    finally show ?thesis using Some by (subst sinkDown_loop.simps) simp
  qed
qed

lemma mset_dequeue:
  assumes "items \<noteq> []"
  shows "fst (dequeue items) = Some (element (items ! 0))"
    and "mset items = add_mset (items ! 0) (mset (snd (dequeue items)))"
proof -
  show "fst (dequeue items) = Some (element (items ! 0))"
    using assms by (simp add: dequeue_def isEmpty_def Let_def)
  obtain ys y where items: "items = ys @ [y]" using assms by (cases items rule: rev_cases) auto
  show "mset items = add_mset (items ! 0) (mset (snd (dequeue items)))"
  proof (cases ys)
    case Nil
    with items show ?thesis by (simp add: dequeue_def isEmpty_def)
  next
    case (Cons z zs)
    have "mset (snd (dequeue items)) = mset ((z # zs)[0 := y])"
      using items Cons by (simp add: dequeue_def isEmpty_def sinkDown_def mset_sinkDown_loop)
    then show ?thesis using items Cons by simp
  qed
qed

subsection \<open>The heap order\<close>

lemma is_heap_iff:
  "is_heap items \<longleftrightarrow>
     (\<forall>j. 0 < j \<and> j < length items \<longrightarrow> priority (items ! ((j - 1) div 2)) \<le> priority (items ! j))"
  by (auto simp: is_heap_def)

lemma up_inv_step:
  assumes inv: "up_inv (items[i := item]) i" and i: "0 < i" "i < length items"
    and lt: "priority item < priority (items ! ((i - 1) div 2))"
  shows "up_inv (items[i := items ! ((i - 1) div 2), (i - 1) div 2 := item]) ((i - 1) div 2)"
proof -
  let ?p = "(i - 1) div 2"
  let ?ys = "items[i := item]"
  let ?zs = "items[i := items ! ?p, ?p := item]"
  have p: "?p < i" using i by arith
  have len: "length ?zs = length items" "length ?ys = length items" by simp_all
  have ysp: "?ys ! ?p = items ! ?p" using p by simp
  have zs_i: "?zs ! i = items ! ?p" using p i by simp
  have zs_p: "?zs ! ?p = item" using p i by simp
  have zs_other: "\<And>k. k \<noteq> i \<Longrightarrow> k \<noteq> ?p \<Longrightarrow> ?zs ! k = ?ys ! k" by simp
  have A: "\<And>j. 0 < j \<Longrightarrow> j < length items \<Longrightarrow> j \<noteq> i \<Longrightarrow>
             priority (?ys ! ((j - 1) div 2)) \<le> priority (?ys ! j)"
    using inv unfolding up_inv_def length_list_update by blast
  have B: "\<And>j. 0 < j \<Longrightarrow> j < length items \<Longrightarrow> (j - 1) div 2 = i \<Longrightarrow>
             priority (?ys ! ?p) \<le> priority (?ys ! j)"
    using inv i unfolding up_inv_def length_list_update by blast
  show ?thesis
    unfolding up_inv_def len
  proof (intro conjI allI impI)
    fix j
    assume j: "0 < j \<and> j < length items \<and> j \<noteq> ?p"
    let ?q = "(j - 1) div 2"
    have q: "?q < j" using j by arith
    show "priority (?zs ! ?q) \<le> priority (?zs ! j)"
    proof (cases "j = i")
      case True
      then show ?thesis using zs_i zs_p lt by simp
    next
      case False
      then have zj: "?zs ! j = ?ys ! j" using j zs_other by simp
      have yj: "priority (?ys ! ?q) \<le> priority (?ys ! j)" using A j False by simp
      show ?thesis
      proof (cases "?q = ?p")
        case True
        then show ?thesis using zj yj zs_p lt ysp by simp
      next
        case qp: False
        show ?thesis
        proof (cases "?q = i")
          case True
          then show ?thesis using B [of j] j zj zs_i ysp by simp
        next
          case False
          then show ?thesis using zs_other [of ?q] qp zj yj by simp
        qed
      qed
    qed
  next
    fix j
    assume j: "0 < ?p \<and> 0 < j \<and> j < length items \<and> (j - 1) div 2 = ?p"
    let ?pp = "(?p - 1) div 2"
    have pp: "?pp < ?p" using j by arith
    have zpp: "?zs ! ?pp = ?ys ! ?pp" using pp p by simp
    have "priority (?ys ! ?pp) \<le> priority (?ys ! ?p)"
      by (rule A) (use j p i in auto)
    then have le: "priority (?ys ! ?pp) \<le> priority (items ! ?p)"
      unfolding ysp .
    show "priority (?zs ! ?pp) \<le> priority (?zs ! j)"
    proof (cases "j = i")
      case True
      then show ?thesis using zs_i zpp le by simp
    next
      case False
      have "j \<noteq> ?p" using j by arith
      then have "?zs ! j = ?ys ! j" using False zs_other by simp
      moreover have "priority (?ys ! ?p) \<le> priority (?ys ! j)" using A [of j] j False by simp
      ultimately show ?thesis using zpp le ysp by simp
    qed
  qed
qed

lemma heap_bubbleUp_loop:
  "index < length items \<Longrightarrow> up_inv (items[index := item]) index \<Longrightarrow>
   is_heap (bubbleUp_loop items index item)"
proof (induction items index item rule: bubbleUp_loop.induct)
  case (1 items index item)
  let ?p = "(index - 1) div 2"
  show ?case
  proof (cases "index > 0")
    case False
    then have "bubbleUp_loop items index item = items[index := item]"
      by (subst bubbleUp_loop.simps) simp
    moreover have "is_heap (items[index := item])"
      using 1(3) False unfolding up_inv_def is_heap_iff by simp
    ultimately show ?thesis by simp
  next
    case pos: True
    then have p: "?p < index" by arith
    show ?thesis
    proof (cases "priority item \<ge> priority (items ! ?p)")
      case True
      then have "bubbleUp_loop items index item = items[index := item]"
        using pos by (subst bubbleUp_loop.simps) (simp add: Let_def)
      moreover have "is_heap (items[index := item])"
        unfolding is_heap_iff
      proof (intro allI impI)
        fix j
        assume j: "0 < j \<and> j < length (items[index := item])"
        show "priority (items[index := item] ! ((j - 1) div 2))
              \<le> priority (items[index := item] ! j)"
        proof (cases "j = index")
          case True
          with \<open>priority item \<ge> priority (items ! ?p)\<close> p 1(2) show ?thesis by simp
        next
          case False
          with 1(3) j show ?thesis unfolding up_inv_def by blast
        qed
      qed
      ultimately show ?thesis by simp
    next
      case False
      then have eq: "bubbleUp_loop items index item
                     = bubbleUp_loop (items[index := items ! ?p]) ?p item"
        using pos by (subst bubbleUp_loop.simps) (simp add: Let_def)
      have "up_inv (items[index := items ! ?p, ?p := item]) ?p"
        using up_inv_step [OF 1(3) pos 1(2)] False by simp
      then have "is_heap (bubbleUp_loop (items[index := items ! ?p]) ?p item)"
        using 1(1) [OF pos refl refl False] p 1(2) by simp
      with eq show ?thesis by simp
    qed
  qed
qed

lemma is_heap_enqueue: "is_heap items \<Longrightarrow> is_heap (enqueue items e p)"
proof -
  assume h: "is_heap items"
  let ?x = "\<lparr>element = e, priority = p\<rparr>"
  have "up_inv ((items @ [?x])[length items := ?x]) (length items)"
    unfolding up_inv_def
  proof (intro conjI allI impI)
    fix j
    assume j: "0 < j \<and> j < length ((items @ [?x])[length items := ?x]) \<and> j \<noteq> length items"
    then have jl: "j < length items" by simp
    moreover have "(j - 1) div 2 < length items" using jl by arith
    ultimately show "priority ((items @ [?x])[length items := ?x] ! ((j - 1) div 2))
                     \<le> priority ((items @ [?x])[length items := ?x] ! j)"
      using h j by (simp add: is_heap_iff nth_append)
  next
    fix j
    assume "0 < length items \<and> 0 < j \<and> j < length ((items @ [?x])[length items := ?x]) \<and>
            (j - 1) div 2 = length items"
    then have "j < Suc (length items)" "(j - 1) div 2 = length items" "0 < length items"
      by simp_all
    then have False by arith
    then show "priority ((items @ [?x])[length items := ?x] ! ((length items - 1) div 2))
               \<le> priority ((items @ [?x])[length items := ?x] ! j)" ..
  qed
  then show ?thesis
    by (simp add: enqueue_def bubbleUp_def Let_def heap_bubbleUp_loop)
qed

lemma swapIndex_None:
  assumes "swapIndex items i item = None" "c < length items" "c = 2 * i + 1 \<or> c = 2 * i + 2"
  shows "priority item \<le> priority (items ! c)"
  using assms by (auto simp: swapIndex_def Let_def split: if_splits option.splits)

lemma swapIndex_Some:
  assumes "swapIndex items i item = Some s"
  shows "s = 2 * i + 1 \<or> s = 2 * i + 2" and "priority (items ! s) < priority item"
    and "\<And>c. c < length items \<Longrightarrow> c = 2 * i + 1 \<or> c = 2 * i + 2 \<Longrightarrow>
           priority (items ! s) \<le> priority (items ! c)"
  using assms by (auto simp: swapIndex_def Let_def split: if_splits option.splits)

lemma down_inv_step:
  assumes inv: "down_inv (items[i := item]) i" and i: "i < length items"
    and s: "swapIndex items i item = Some s"
  shows "down_inv (items[i := items ! s, s := item]) s"
proof -
  let ?ys = "items[i := item]"
  let ?zs = "items[i := items ! s, s := item]"
  from swapIndex_range [OF s] have rng: "i < s" "s < length items" by auto
  have par_s: "(s - 1) div 2 = i" using swapIndex_Some(1) [OF s] by arith
  have lt: "priority (items ! s) < priority item" by (rule swapIndex_Some(2) [OF s])
  have least: "priority (items ! s) \<le> priority (items ! c)"
    if "0 < c" "c < length items" "(c - 1) div 2 = i" for c
  proof -
    from that have "c = 2 * i + 1 \<or> c = 2 * i + 2" by arith
    then show ?thesis by (rule swapIndex_Some(3) [OF s that(2)])
  qed
  have zs_i: "?zs ! i = items ! s" using rng i by simp
  have zs_s: "?zs ! s = item" using rng by simp
  have zs_other: "\<And>k. k \<noteq> i \<Longrightarrow> k \<noteq> s \<Longrightarrow> ?zs ! k = items ! k" by simp
  have ys_other: "\<And>k. k \<noteq> i \<Longrightarrow> ?ys ! k = items ! k" by simp
  have A: "\<And>j. 0 < j \<Longrightarrow> j < length items \<Longrightarrow> (j - 1) div 2 \<noteq> i \<Longrightarrow>
             priority (?ys ! ((j - 1) div 2)) \<le> priority (?ys ! j)"
    using inv unfolding down_inv_def length_list_update by blast
  have B: "\<And>j. 0 < i \<Longrightarrow> 0 < j \<Longrightarrow> j < length items \<Longrightarrow> (j - 1) div 2 = i \<Longrightarrow>
             priority (?ys ! ((i - 1) div 2)) \<le> priority (?ys ! j)"
    using inv unfolding down_inv_def length_list_update by blast
  show ?thesis
    unfolding down_inv_def length_list_update
  proof (intro conjI allI impI)
    fix j
    assume j: "0 < j \<and> j < length items \<and> (j - 1) div 2 \<noteq> s"
    let ?q = "(j - 1) div 2"
    have q: "?q < j" using j by arith
    show "priority (?zs ! ?q) \<le> priority (?zs ! j)"
    proof (cases "?q = i")
      case True
      show ?thesis
      proof (cases "j = s")
        case True
        then show ?thesis using zs_i zs_s lt par_s by simp
      next
        case False
        have "j \<noteq> i" using True q by simp
        then have "?zs ! j = items ! j" using False zs_other by simp
        then show ?thesis using True zs_i least [of j] j by simp
      qed
    next
      case False
      have js: "j \<noteq> s" using False par_s by auto
      have qs: "?q \<noteq> s" using j by simp
      have zq: "?zs ! ?q = items ! ?q" using False qs zs_other by simp
      have yq: "?ys ! ?q = items ! ?q" using False ys_other by simp
      show ?thesis
      proof (cases "j = i")
        case True
        have ipos: "0 < i" using True j by simp
        have "priority (?ys ! ((i - 1) div 2)) \<le> priority (?ys ! s)"
          by (rule B) (use ipos rng par_s in auto)
        moreover have "?ys ! s = items ! s" using rng by simp
        ultimately show ?thesis using True zs_i zq yq by simp
      next
        case ji: False
        have "priority (?ys ! ?q) \<le> priority (?ys ! j)"
          by (rule A) (use j False in auto)
        moreover have "?zs ! j = items ! j" "?ys ! j = items ! j"
          using ji js zs_other ys_other by simp_all
        ultimately show ?thesis using zq yq by simp
      qed
    qed
  next
    fix j
    assume j: "0 < s \<and> 0 < j \<and> j < length items \<and> (j - 1) div 2 = s"
    have "s < j" using j by arith
    then have ne: "j \<noteq> i" "j \<noteq> s" using rng by auto
    have "priority (?ys ! ((j - 1) div 2)) \<le> priority (?ys ! j)"
      by (rule A) (use j rng in auto)
    moreover have "?ys ! j = items ! j" "?ys ! s = items ! s" "?zs ! j = items ! j"
      using ne rng by simp_all
    ultimately show "priority (?zs ! ((s - 1) div 2)) \<le> priority (?zs ! j)"
      using j par_s zs_i by simp
  qed
qed

lemma heap_sinkDown_loop:
  "index < length items \<Longrightarrow> down_inv (items[index := item]) index \<Longrightarrow>
   is_heap (sinkDown_loop items index item)"
proof (induction items index item rule: sinkDown_loop.induct)
  case (1 items index item)
  show ?case
  proof (cases "swapIndex items index item")
    case None
    then have eq: "sinkDown_loop items index item = items[index := item]"
      by (subst sinkDown_loop.simps) simp
    have "is_heap (items[index := item])"
      unfolding is_heap_iff length_list_update
    proof (intro allI impI)
      fix j
      assume j: "0 < j \<and> j < length items"
      show "priority (items[index := item] ! ((j - 1) div 2))
            \<le> priority (items[index := item] ! j)"
      proof (cases "(j - 1) div 2 = index")
        case True
        then have "j = 2 * index + 1 \<or> j = 2 * index + 2" using j by arith
        from swapIndex_None [OF None _ this] j have "priority item \<le> priority (items ! j)"
          by simp
        moreover have "j \<noteq> index" using True j by arith
        ultimately show ?thesis using True 1(2) by simp
      next
        case False
        with 1(3) j show ?thesis unfolding down_inv_def length_list_update by blast
      qed
    qed
    with eq show ?thesis by simp
  next
    case (Some s)
    from swapIndex_range [OF Some] have s: "index < s" "s < length items" by auto
    have eq: "sinkDown_loop items index item
              = sinkDown_loop (items[index := items ! s]) s item"
      using Some by (subst sinkDown_loop.simps) simp
    have "down_inv (items[index := items ! s, s := item]) s"
      by (rule down_inv_step [OF 1(3) 1(2) Some])
    then have "is_heap (sinkDown_loop (items[index := items ! s]) s item)"
      using 1(1) [OF Some] s by simp
    with eq show ?thesis by simp
  qed
qed

lemma is_heap_dequeue:
  assumes "is_heap items"
  shows "is_heap (snd (dequeue items))"
proof (cases items rule: rev_cases)
  case Nil
  then show ?thesis by (simp add: dequeue_def isEmpty_def is_heap_def)
next
  case (snoc ys y)
  show ?thesis
  proof (cases ys)
    case Nil
    with snoc show ?thesis by (simp add: dequeue_def isEmpty_def is_heap_def)
  next
    case (Cons z zs)
    have h: "\<And>j. 0 < j \<Longrightarrow> j < length ys \<Longrightarrow>
               priority (ys ! ((j - 1) div 2)) \<le> priority (ys ! j)"
    proof -
      fix j :: nat
      assume j: "0 < j" "j < length ys"
      then have "(j - 1) div 2 < length ys" by arith
      with assms j snoc show "priority (ys ! ((j - 1) div 2)) \<le> priority (ys ! j)"
        unfolding is_heap_iff by (auto simp: nth_append dest!: spec [where x = j])
    qed
    have "down_inv (ys[0 := y]) 0"
      unfolding down_inv_def length_list_update
    proof (intro conjI allI impI)
      fix j
      assume j: "0 < j \<and> j < length ys \<and> (j - 1) div 2 \<noteq> 0"
      then show "priority (ys[0 := y] ! ((j - 1) div 2)) \<le> priority (ys[0 := y] ! j)"
        using h [of j] by simp
    qed simp
    then have "is_heap (sinkDown_loop (ys[0 := y]) 0 y)"
      using Cons by (intro heap_sinkDown_loop) simp_all
    moreover have "(ys[0 := y]) ! 0 = y" using Cons by simp
    ultimately show ?thesis
      using snoc Cons by (simp add: dequeue_def isEmpty_def sinkDown_def)
  qed
qed

lemma heap_root_least:
  assumes "is_heap items" "i < length items"
  shows "priority (items ! 0) \<le> priority (items ! i)"
  using assms(2)
proof (induction i rule: less_induct)
  case (less i)
  show ?case
  proof (cases "i = 0")
    case True
    then show ?thesis by simp
  next
    case False
    let ?p = "(i - 1) div 2"
    have p: "?p < i" using False by arith
    have "priority (items ! 0) \<le> priority (items ! ?p)"
      using less.IH [OF p] p less.prems by simp
    moreover have "priority (items ! ?p) \<le> priority (items ! i)"
      using assms(1) False less.prems unfolding is_heap_iff by simp
    ultimately show ?thesis by simp
  qed
qed

lemma heap_root_least_set:
  assumes "is_heap items" "x \<in> set items"
  shows "priority (items ! 0) \<le> priority x"
  using assms heap_root_least by (metis in_set_conv_nth)

subsection \<open>Extraction order\<close>

lemma enqueueAll_heap: "is_heap items \<Longrightarrow> is_heap (enqueueAll items calls)"
  by (induction items calls rule: enqueueAll.induct) (simp_all add: is_heap_enqueue)

lemma enqueueAll_mset:
  "mset (enqueueAll items calls) = mset items + mset (map mkItem calls)"
  by (induction items calls rule: enqueueAll.induct) (simp_all add: mset_enqueue mkItem_def)

lemma enqueueAll_length: "length (enqueueAll items calls) = length items + length calls"
  by (induction items calls rule: enqueueAll.induct) simp_all

lemma dequeueN_sorted:
  "is_heap items \<Longrightarrow> length items = n \<Longrightarrow>
   \<exists>ys. mset ys = mset items \<and> sorted (map priority ys) \<and>
        dequeueN n items = (map (\<lambda>y. Some (element y)) ys, [])"
proof (induction n arbitrary: items)
  case 0
  then show ?case by simp
next
  case (Suc n)
  then have ne: "items \<noteq> []" by auto
  let ?q = "snd (dequeue items)"
  have hq: "is_heap ?q" by (rule is_heap_dequeue [OF Suc.prems(1)])
  have lq: "length ?q = n" using Suc.prems(2) by simp
  from Suc.IH [OF hq lq] obtain ys where ys: "mset ys = mset ?q" "sorted (map priority ys)"
    "dequeueN n ?q = (map (\<lambda>y. Some (element y)) ys, [])" by blast
  have ms: "mset items = add_mset (items ! 0) (mset ?q)" by (rule mset_dequeue(2) [OF ne])
  have "\<forall>y \<in> set ys. priority (items ! 0) \<le> priority y"
  proof
    fix y assume "y \<in> set ys"
    then have "y \<in># mset ?q" using ys(1) by (metis set_mset_mset)
    then have "y \<in># mset items" using ms by simp
    then show "priority (items ! 0) \<le> priority y"
      using heap_root_least_set [OF Suc.prems(1)] by simp
  qed
  then have "sorted (map priority (items ! 0 # ys))" using ys(2) by simp
  moreover have "mset (items ! 0 # ys) = mset items" using ms ys(1) by simp
  moreover have "dequeueN (Suc n) items = (map (\<lambda>y. Some (element y)) (items ! 0 # ys), [])"
    using mset_dequeue(1) [OF ne] ys(3) by (simp add: split_beta)
  ultimately show ?case by blast
qed

text \<open>
  C4: for every finite sequence of \<open>enqueue(element, priority)\<close> calls on a fresh queue, as
  many \<open>dequeue\<close> calls return the elements in non-decreasing order of their priorities
  (they return the elements of a rearrangement of the calls that is sorted by priority),
  and \<open>isEmpty()\<close> is true afterwards.
\<close>

theorem heap_extraction_order:
  "\<exists>ys. mset ys = mset calls \<and> sorted (map snd ys) \<and>
        fst (dequeueN (length calls) (enqueueAll [] calls)) = map (\<lambda>(e, p). Some e) ys \<and>
        isEmpty (snd (dequeueN (length calls) (enqueueAll [] calls)))"
proof -
  let ?q = "enqueueAll [] calls"
  have "is_heap ?q" by (rule enqueueAll_heap) (simp add: is_heap_def)
  moreover have "length ?q = length calls" by (simp add: enqueueAll_length)
  ultimately obtain zs where zs: "mset zs = mset ?q" "sorted (map priority zs)"
    "dequeueN (length calls) ?q = (map (\<lambda>y. Some (element y)) zs, [])"
    using dequeueN_sorted by blast
  let ?ys = "map (\<lambda>z. (element z, priority z)) zs"
  have "mset ?ys = image_mset (\<lambda>z. (element z, priority z)) (mset ?q)"
    using zs(1) by (metis mset_map)
  also have "\<dots> = mset (map ((\<lambda>z. (element z, priority z)) \<circ> mkItem) calls)"
    by (simp add: enqueueAll_mset multiset.map_comp)
  also have "(\<lambda>z. (element z, priority z)) \<circ> mkItem = (\<lambda>c :: 'a \<times> number. c)"
    by (auto simp: mkItem_def)
  finally have "mset ?ys = mset calls" by simp
  moreover have "sorted (map snd ?ys)" using zs(2) by (simp add: comp_def)
  moreover have "fst (dequeueN (length calls) ?q) = map (\<lambda>(e, p). Some e) ?ys"
    using zs(3) by (simp add: comp_def)
  moreover have "isEmpty (snd (dequeueN (length calls) ?q))"
    using zs(3) by (simp add: isEmpty_def)
  ultimately show ?thesis by blast
qed

subsection \<open>Walks\<close>

lemma reachable_refl [simp]: "reachable g u u"
  unfolding reachable_def by (blast intro: walk_refl)

lemma walk_append: "walk g u c v \<Longrightarrow> walk g v d w \<Longrightarrow> walk g u (c + d) w"
proof (induction rule: walk.induct)
  case (walk_refl u)
  then show ?case by simp
next
  case (walk_step u v c d' w')
  then have "walk g u (c + (d' + d)) w" by (blast intro: walk.walk_step)
  then show ?case by (simp add: add.assoc)
qed

lemma walk_snoc: "walk g u c v \<Longrightarrow> edge g v w e \<Longrightarrow> walk g u (c + e) w"
  using walk_append [of g u c v e w] walk_step [OF _ walk_refl, of g v w e] by simp

lemma reachable_edge: "reachable g u v \<Longrightarrow> edge g v w e \<Longrightarrow> reachable g u w"
  unfolding reachable_def by (blast intro: walk_snoc)

lemma closed_reachable:
  assumes "walk g u c v" "u \<in> S" "\<And>a b e. a \<in> S \<Longrightarrow> edge g a b e \<Longrightarrow> b \<in> S"
  shows "v \<in> S"
  using assms by (induction rule: walk.induct) blast+

subsection \<open>Neighbours in a graph of the data model\<close>

lemma wf_node_name: "wf_graph g \<Longrightarrow> (k, nd) \<in> set (nodes g) \<Longrightarrow> node_name nd = k"
  unfolding wf_graph_def by blast

lemma wf_edge:
  "wf_graph g \<Longrightarrow> (u, es) \<in> set (edges g) \<Longrightarrow> (v, c) \<in> set es \<Longrightarrow>
   getNode g v \<noteq> None \<and> 0 \<le> c"
  unfolding wf_graph_def by blast

lemma getNeighbors_edge:
  assumes "wf_graph g" "(ndo, c) \<in> set (getNeighbors g u)"
  shows "\<exists>nd. ndo = Some nd \<and> edge g u (node_name nd) c \<and> getNode g (node_name nd) = Some nd"
proof -
  from assms(2) obtain es v where es: "map_of (edges g) u = Some es" "(v, c) \<in> set es"
    "ndo = map_of (nodes g) v"
    by (cases "map_of (edges g) u") (auto simp: getNeighbors_def)
  from es(1) have "(u, es) \<in> set (edges g)" by (rule map_of_SomeD)
  with assms(1) es(2) obtain nd where nd: "getNode g v = Some nd"
    using wf_edge by blast
  then have "(v, nd) \<in> set (nodes g)" unfolding getNode_def by (rule map_of_SomeD)
  with assms(1) have "node_name nd = v" by (rule wf_node_name)
  with nd es show ?thesis by (auto simp: edge_def getNode_def)
qed

lemma edge_getNeighbors:
  assumes "wf_graph g" "edge g u v c"
  shows "\<exists>nd. (Some nd, c) \<in> set (getNeighbors g u) \<and> node_name nd = v"
proof -
  from assms(2) obtain es where es: "map_of (edges g) u = Some es" "(v, c) \<in> set es"
    by (cases "map_of (edges g) u") (auto simp: edge_def)
  from es(1) have "(u, es) \<in> set (edges g)" by (rule map_of_SomeD)
  with assms(1) es(2) obtain nd where nd: "getNode g v = Some nd"
    using wf_edge by blast
  then have "(v, nd) \<in> set (nodes g)" unfolding getNode_def by (rule map_of_SomeD)
  with assms(1) have "node_name nd = v" by (rule wf_node_name)
  moreover have "(map_of (nodes g) v, c) \<in> set (getNeighbors g u)"
    using es by (force simp: getNeighbors_def)
  ultimately show ?thesis using nd by (auto simp: getNode_def)
qed




subsection \<open>Path reconstruction\<close>




lemma rooted_dom: "rooted start parent v \<Longrightarrow> parent v \<noteq> None"
  by (induction rule: rooted.induct) auto





lemma buildResult_not_found:
  "buildResult g start goal parent explored False cm = Inr (mkResult False [] 0 explored)"
  by (simp add: buildResult_def)

subsection \<open>Loops over the neighbours\<close>


subsection \<open>Breadth-first search\<close>




subsection \<open>Depth-first search\<close>






subsection \<open>Queue contents\<close>

lemma elems_enqueue [simp]: "elems (enqueue pQueue e p) = insert e (elems pQueue)"
proof -
  have "set (enqueue pQueue e p) = insert \<lparr>element = e, priority = p\<rparr> (set pQueue)"
    using mset_enqueue [of pQueue e p] by (metis set_mset_add_mset_insert set_mset_mset)
  then show ?thesis by (simp add: elems_def)
qed

lemma elems_dequeue:
  "pQueue \<noteq> [] \<Longrightarrow> elems pQueue = insert (element (pQueue ! 0)) (elems (snd (dequeue pQueue)))"
proof -
  assume "pQueue \<noteq> []"
  then have "set pQueue = insert (pQueue ! 0) (set (snd (dequeue pQueue)))"
    using mset_dequeue(2) [of pQueue] by (metis set_mset_add_mset_insert set_mset_mset)
  then show ?thesis by (simp add: elems_def)
qed

lemma elems_Nil [simp]: "elems [] = {}"
  by (simp add: elems_def)

lemma dequeue_nonempty:
  "pQueue \<noteq> [] \<Longrightarrow> dequeue pQueue = (Some (element (pQueue ! 0)), snd (dequeue pQueue))"
  using mset_dequeue(1) [of pQueue] by (metis prod.collapse)

lemma forEach_prefix:
  assumes "I [] s"
    and "\<And>pre x post t. xs = pre @ x # post \<Longrightarrow> I pre t \<Longrightarrow>
           \<exists>t'. body x t = Inr t' \<and> I (pre @ [x]) t'"
  shows "\<exists>s'. forEach body xs s = Inr s' \<and> I xs s'"
  using assms(2)
proof (induction xs rule: rev_induct)
  case Nil
  then show ?case using assms(1) by simp
next
  case (snoc x xs)
  have "\<exists>t. forEach body xs s = Inr t \<and> I xs t"
  proof (rule snoc.IH)
    fix pre y post t
    assume "xs = pre @ y # post" "I pre t"
    then show "\<exists>t'. body y t = Inr t' \<and> I (pre @ [y]) t'"
      using snoc.prems [of pre y "post @ [x]" t] by simp
  qed
  then obtain t where t: "forEach body xs s = Inr t" "I xs t" by blast
  from snoc.prems [of xs x "[]" t] t(2) obtain t' where "body x t = Inr t'" "I (xs @ [x]) t'"
    by auto
  then show ?case using t by (simp add: forEach_append)
qed

subsection \<open>Predecessor chains with costs\<close>

lemma chained_rooted: "chained g start parent cost v \<Longrightarrow> rooted start parent v"
  by (induction rule: chained.induct) (auto intro: rooted.intros)

lemma chained_extend:
  assumes "chained g start parent cost v" "parent n = None"
  shows "chained g start (parent(n \<mapsto> x)) (cost(n \<mapsto> y)) v"
  using assms(1)
proof (induction rule: chained.induct)
  case chained_start
  then show ?case using assms(2) by (intro chained.chained_start) auto
next
  case (chained_step v u a e)
  have "u \<noteq> n" using chained_rooted [OF chained_step(2)] rooted_dom assms(2) by blast
  moreover have "v \<noteq> n" using chained_step(1) assms(2) by auto
  ultimately show ?case
    using chained_step by - (rule chained.chained_step [where u = u and a = a and e = e], auto)
qed

lemma sumEdgeCosts_snoc:
  assumes "sumEdgeCosts g (p @ [u]) acc = Inr c" "findNeighbor (getNeighbors g u) v = Inr (Some e)"
  shows "sumEdgeCosts g (p @ [u, v]) acc = Inr (number_add c e)"
  using assms(1)
proof (induction p arbitrary: acc)
  case Nil
  then show ?case using assms(2) by simp
next
  case (Cons a p)
  obtain b rest where br: "p @ [u] = b # rest" by (cases p) auto
  then have br2: "p @ [u, v] = b # rest @ [v]" by (cases p) auto
  have step: "sumEdgeCosts g (b # rest) acc' = Inr c \<Longrightarrow>
              sumEdgeCosts g (b # rest @ [v]) acc' = Inr (number_add c e)" for acc'
    using Cons.IH [of acc'] unfolding br br2 .
  have prem: "sumEdgeCosts g (a # b # rest) acc = Inr c"
    using Cons.prems unfolding append_Cons br .
  have "sumEdgeCosts g (a # b # rest @ [v]) acc = Inr (number_add c e)"
  proof (cases "findNeighbor (getNeighbors g a) b")
    case (Inl x)
    then show ?thesis using prem by simp
  next
    case (Inr r)
    show ?thesis
    proof (cases r)
      case None
      with Inr prem have "sumEdgeCosts g (b # rest) acc = Inr c" by simp
      from step [OF this] show ?thesis using Inr None by simp
    next
      case (Some x)
      with Inr prem have "sumEdgeCosts g (b # rest) (number_add acc x) = Inr c" by simp
      from step [OF this] show ?thesis using Inr Some by simp
    qed
  qed
  then show ?case unfolding append_Cons br2 .
qed

lemma chained_path:
  "chained g start parent cost v \<Longrightarrow>
   \<exists>p c. (\<forall>acc. reconstruct parent (Some v) acc = Some (p @ v # acc)) \<and> cost v = Some c \<and>
         sumEdgeCosts g (p @ [v]) 0 = Inr c \<and> hd (p @ [v]) = start"
proof (induction rule: chained.induct)
  case chained_start
  then show ?case by (intro exI [of _ "[]"]) simp
next
  case (chained_step v u a e)
  then obtain p where p: "\<forall>acc. reconstruct parent (Some u) acc = Some (p @ u # acc)"
    "sumEdgeCosts g (p @ [u]) 0 = Inr a" "hd (p @ [u]) = start" by auto
  have "\<forall>acc. reconstruct parent (Some v) acc = Some ((p @ [u]) @ v # acc)"
    using p(1) chained_step(1) by simp
  moreover have "sumEdgeCosts g ((p @ [u]) @ [v]) 0 = Inr (number_add a e)"
    using sumEdgeCosts_snoc [OF p(2) chained_step(4)] by simp
  moreover have "hd ((p @ [u]) @ [v]) = start" using p(3) by (cases p) auto
  ultimately show ?case using chained_step(5) by blast
qed

lemma findNeighbor_first:
  assumes "\<forall>nb \<in> set pre. \<exists>nd'. fst nb = Some nd' \<and> node_name nd' \<noteq> node_name nd"
  shows "findNeighbor (pre @ (Some nd, c) # post) (node_name nd) = Inr (Some c)"
  using assms
proof (induction pre)
  case Nil
  then show ?case by simp
next
  case (Cons a pre)
  then obtain nd' c' where "a = (Some nd', c')" "node_name nd' \<noteq> node_name nd"
    by (cases a) auto
  then show ?case using Cons by simp
qed

lemma chained_cost: "chained g start parent cost v \<Longrightarrow> \<exists>a. cost v = Some a"
  by (induction rule: chained.induct) auto

subsection \<open>Greedy best-first search\<close>

lemma greedy_loop_rule:
  assumes "I pQueue visited parent cost explored"
    and "\<And>pQueue visited parent cost explored.
           I pQueue visited parent cost explored \<Longrightarrow> pQueue \<noteq> [] \<Longrightarrow>
           element (pQueue ! 0) \<in> visited \<Longrightarrow>
           I (snd (dequeue pQueue)) visited parent cost explored"
    and "\<And>pQueue visited parent cost explored.
           I pQueue visited parent cost explored \<Longrightarrow> pQueue \<noteq> [] \<Longrightarrow>
           element (pQueue ! 0) \<notin> visited \<Longrightarrow> element (pQueue ! 0) \<noteq> goal \<Longrightarrow>
           \<exists>pQueue' parent' cost'.
             forEach (greedy_visit (element (pQueue ! 0)) (insert (element (pQueue ! 0)) visited))
               (getNeighbors g (element (pQueue ! 0))) (snd (dequeue pQueue), parent, cost)
               = Inr (pQueue', parent', cost') \<and>
             I pQueue' (insert (element (pQueue ! 0)) visited) parent' cost'
               (explored @ [element (pQueue ! 0)])"
    and "\<And>pQueue visited parent cost explored.
           I pQueue visited parent cost explored \<Longrightarrow> pQueue \<noteq> [] \<Longrightarrow>
           element (pQueue ! 0) = goal \<Longrightarrow> goal \<notin> visited \<Longrightarrow>
           Q (buildResult g start goal parent (explored @ [goal]) True (Some cost))"
    and "\<And>visited parent cost explored.
           I [] visited parent cost explored \<Longrightarrow>
           Q (buildResult g start goal parent explored False None)"
  shows "Q (greedy_loop g start goal pQueue visited parent cost explored)"
  using assms
proof (induction g start goal pQueue visited parent cost explored rule: greedy_loop.induct)
  case (1 g start goal pQueue visited parent cost explored)
  show ?case
  proof (cases "pQueue = []")
    case True
    then show ?thesis using 1(3) 1(7) by (subst greedy_loop.simps) (simp add: isEmpty_def)
  next
    case ne: False
    let ?cur = "element (pQueue ! 0)"
    obtain rest where rest: "rest = snd (dequeue pQueue)" by simp
    have dq: "dequeue pQueue = (Some ?cur, rest)"
      unfolding rest by (rule dequeue_nonempty [OF ne])
    have nE: "\<not> isEmpty pQueue" using ne by (simp add: isEmpty_def)
    show ?thesis
    proof (cases "?cur \<in> visited")
      case True
      have "I rest visited parent cost explored" unfolding rest by (rule 1(4) [OF 1(3) ne True])
      then have "Q (greedy_loop g start goal rest visited parent cost explored)"
        by (rule 1(1) [OF nE dq [symmetric] refl True _ 1(4) 1(5) 1(6) 1(7)])
      then show ?thesis using nE dq True by (subst greedy_loop.simps) simp
    next
      case nv: False
      show ?thesis
      proof (cases "?cur = goal")
        case True
        then show ?thesis using 1(6) [OF 1(3) ne True] nv nE dq
          by (subst greedy_loop.simps) (simp add: Let_def)
      next
        case False
        from 1(5) [OF 1(3) ne nv False, folded rest] obtain pQueue' parent' cost' where
          nb: "forEach (greedy_visit ?cur (insert ?cur visited)) (getNeighbors g ?cur)
                 (rest, parent, cost) = Inr (pQueue', parent', cost')"
          and inv: "I pQueue' (insert ?cur visited) parent' cost' (explored @ [?cur])"
          by blast
        have "Q (greedy_loop g start goal pQueue' (insert ?cur visited) parent' cost'
                   (explored @ [?cur]))"
          by (rule 1(2) [OF nE dq [symmetric] refl nv refl refl False nb refl refl inv
                1(4) 1(5) 1(6) 1(7)])
        then show ?thesis using nE dq nv False nb
          by (subst greedy_loop.simps) (simp add: Let_def)
      qed
    qed
  qed
qed

lemma greedy_invD:
  assumes "greedy_inv g start goal pQueue visited parent cost explored"
  shows "distinct explored" "visited = set explored" "goal \<notin> visited"
    "start \<in> visited \<union> elems pQueue"
    "\<And>v. parent v \<noteq> None \<Longrightarrow> chained g start parent cost v"
    "\<And>v. v \<in> visited \<union> elems pQueue \<Longrightarrow> reachable g start v \<and> parent v \<noteq> None"
    "\<And>u v c. u \<in> visited \<Longrightarrow> edge g u v c \<Longrightarrow> v \<in> visited \<union> elems pQueue"
  using assms unfolding greedy_inv_def by blast+

lemma greedy_inv_skip:
  assumes inv: "greedy_inv g start goal pQueue visited parent cost explored"
    and ne: "pQueue \<noteq> []" and vis: "element (pQueue ! 0) \<in> visited"
  shows "greedy_inv g start goal (snd (dequeue pQueue)) visited parent cost explored"
proof -
  note D = greedy_invD [OF inv]
  have sub: "visited \<union> elems pQueue = visited \<union> elems (snd (dequeue pQueue))"
    using elems_dequeue [OF ne] vis by auto
  show ?thesis
    unfolding greedy_inv_def using D sub by (metis (no_types, lifting))
qed

lemma greedy_inv_step:
  assumes wf: "wf_graph g" and inv: "greedy_inv g start goal pQueue visited parent cost explored"
    and ne: "pQueue \<noteq> []" and nv: "element (pQueue ! 0) \<notin> visited"
    and ng: "element (pQueue ! 0) \<noteq> goal"
  shows "\<exists>pQueue' parent' cost'.
           forEach (greedy_visit (element (pQueue ! 0)) (insert (element (pQueue ! 0)) visited))
             (getNeighbors g (element (pQueue ! 0))) (snd (dequeue pQueue), parent, cost)
             = Inr (pQueue', parent', cost') \<and>
           greedy_inv g start goal pQueue' (insert (element (pQueue ! 0)) visited) parent' cost'
             (explored @ [element (pQueue ! 0)])"
proof -
  note D = greedy_invD [OF inv]
  let ?cur = "element (pQueue ! 0)"
  let ?vis = "insert ?cur visited"
  let ?rest = "snd (dequeue pQueue)"
  let ?nbs = "getNeighbors g ?cur"
  have el: "elems pQueue = insert ?cur (elems ?rest)" by (rule elems_dequeue [OF ne])
  let ?J = "\<lambda>pre (q, p, c). elems ?rest \<subseteq> elems q \<and>
              (\<forall>x. p x \<noteq> None \<longrightarrow> chained g start p c x) \<and>
              (\<forall>x. parent x \<noteq> None \<longrightarrow> p x \<noteq> None) \<and>
              (\<forall>x \<in> elems q. reachable g start x \<and> p x \<noteq> None) \<and>
              (\<forall>nb \<in> set pre. \<exists>nd. fst nb = Some nd \<and> node_name nd \<in> ?vis \<union> elems q)"
  have cur: "reachable g start ?cur" "parent ?cur \<noteq> None" using D(6) [of ?cur] el by auto
  have J0: "?J [] (?rest, parent, cost)" using D(5) D(6) el by auto
  have "\<exists>s'. forEach (greedy_visit ?cur ?vis) ?nbs (?rest, parent, cost) = Inr s' \<and> ?J ?nbs s'"
  proof (rule forEach_prefix [where I = ?J, OF J0], goal_cases)
    case (1 pre x post t)
    obtain q p c where t: "t = (q, p, c)" by (cases t) auto
    obtain ndo e where x: "x = (ndo, e)" by (cases x) auto
    have "(ndo, e) \<in> set ?nbs" using 1(1) x by simp
    from getNeighbors_edge [OF wf this] obtain nd where
      nd: "ndo = Some nd" "edge g ?cur (node_name nd) e" by blast
    have J: "elems ?rest \<subseteq> elems q" "\<And>x. p x \<noteq> None \<Longrightarrow> chained g start p c x"
      "\<And>x. parent x \<noteq> None \<Longrightarrow> p x \<noteq> None"
      "\<And>x. x \<in> elems q \<Longrightarrow> reachable g start x \<and> p x \<noteq> None"
      "\<And>nb. nb \<in> set pre \<Longrightarrow> \<exists>nd. fst nb = Some nd \<and> node_name nd \<in> ?vis \<union> elems q"
      using 1(2) t by auto
    let ?n = "node_name nd"
    show ?case
    proof (cases "?n \<in> ?vis")
      case True
      then have "greedy_visit ?cur ?vis x t = Inr t" using x nd t by (auto simp: Let_def)
      moreover have "?J (pre @ [x]) t" unfolding t prod.case using J True x nd by auto
      ultimately show ?thesis by blast
    next
      case False
      have re: "reachable g start ?n" by (rule reachable_edge [OF cur(1) nd(2)])
      let ?q = "enqueue q ?n (node_h nd)"
      show ?thesis
      proof (cases "p ?n = None")
        case pn: False
        have body: "greedy_visit ?cur ?vis x t = Inr (?q, p, c)"
          using x nd t False pn by (auto simp: Let_def)
        have a: "elems ?rest \<subseteq> elems ?q" using J(1) by auto
        have b: "\<forall>x \<in> elems ?q. reachable g start x \<and> p x \<noteq> None" using J(4) re pn by auto
        have d: "\<forall>nb \<in> set (pre @ [x]). \<exists>nd. fst nb = Some nd \<and> node_name nd \<in> ?vis \<union> elems ?q"
          using J(5) x nd by auto
        have Jn: "?J (pre @ [x]) (?q, p, c)"
          unfolding prod.case using a b d J(2) J(3) by blast
        show ?thesis using body Jn by blast
      next
        case pn: True
        have cc: "chained g start p c ?cur" using J(2) J(3) cur(2) by blast
        then obtain a where a: "c ?cur = Some a" using chained_cost by blast
        let ?p = "p(?n \<mapsto> Some ?cur)"
        let ?c = "c(?n \<mapsto> number_add a e)"
        have body: "greedy_visit ?cur ?vis x t = Inr (?q, ?p, ?c)"
          using x nd t False pn a by (auto simp: Let_def)
        have first: "\<forall>nb \<in> set pre. \<exists>nd'. fst nb = Some nd' \<and> node_name nd' \<noteq> ?n"
        proof
          fix nb assume "nb \<in> set pre"
          from J(5) [OF this] obtain nd' where
            nd': "fst nb = Some nd'" "node_name nd' \<in> ?vis \<union> elems q" by blast
          have "node_name nd' \<noteq> ?n" using nd'(2) False J(4) [of ?n] pn by auto
          with nd'(1) show "\<exists>nd'. fst nb = Some nd' \<and> node_name nd' \<noteq> ?n" by blast
        qed
        have fn: "findNeighbor ?nbs ?n = Inr (Some e)"
          using findNeighbor_first [OF first, of e post] 1(1) x nd by simp
        have ne_cur: "?cur \<noteq> ?n" using False by auto
        have "chained g start ?p ?c ?cur" by (rule chained_extend [OF cc pn])
        then have r2: "chained g start ?p ?c ?n"
          by (rule chained_step [where u = ?cur and a = a and e = e, rotated])
             (use a fn ne_cur in auto)
        have r1: "chained g start ?p ?c y" if "?p y \<noteq> None" for y
        proof (cases "y = ?n")
          case True
          then show ?thesis using r2 by simp
        next
          case False
          then have "p y \<noteq> None" using that by simp
          then show ?thesis using J(2) pn by (intro chained_extend) auto
        qed
        have a': "elems ?rest \<subseteq> elems ?q" using J(1) by auto
        have b: "\<forall>x. parent x \<noteq> None \<longrightarrow> ?p x \<noteq> None" using J(3) by auto
        have c': "\<forall>x \<in> elems ?q. reachable g start x \<and> ?p x \<noteq> None" using J(4) re by auto
        have d: "\<forall>nb \<in> set (pre @ [x]). \<exists>nd. fst nb = Some nd \<and> node_name nd \<in> ?vis \<union> elems ?q"
          using J(5) x nd by auto
        have Jn: "?J (pre @ [x]) (?q, ?p, ?c)"
          unfolding prod.case using a' b c' d r1 by blast
        show ?thesis using body Jn by blast
      qed
    qed
  qed
  then obtain pQueue' parent' cost' where
    res: "forEach (greedy_visit ?cur ?vis) ?nbs (?rest, parent, cost)
          = Inr (pQueue', parent', cost')"
    and J: "?J ?nbs (pQueue', parent', cost')"
    by auto
  have J': "elems ?rest \<subseteq> elems pQueue'"
    "\<And>x. parent' x \<noteq> None \<Longrightarrow> chained g start parent' cost' x"
    "\<And>x. parent x \<noteq> None \<Longrightarrow> parent' x \<noteq> None"
    "\<And>x. x \<in> elems pQueue' \<Longrightarrow> reachable g start x \<and> parent' x \<noteq> None"
    "\<And>nb. nb \<in> set ?nbs \<Longrightarrow> \<exists>nd. fst nb = Some nd \<and> node_name nd \<in> ?vis \<union> elems pQueue'"
    using J by auto
  have closed: "v \<in> ?vis \<union> elems pQueue'" if "edge g ?cur v c" for v c
  proof -
    from edge_getNeighbors [OF wf that] obtain nd where
      "(Some nd, c) \<in> set ?nbs" "node_name nd = v" by blast
    then show ?thesis using J'(5) by fastforce
  qed
  have sub: "visited \<union> elems pQueue \<subseteq> ?vis \<union> elems pQueue'" using el J'(1) by auto
  have a: "distinct (explored @ [?cur])" using D(1,2) nv by simp
  have b: "?vis = set (explored @ [?cur])" using D(2) by simp
  have c: "goal \<notin> ?vis" using D(3) ng by simp
  have d: "start \<in> ?vis \<union> elems pQueue'" using D(4) sub by blast
  have e: "\<forall>v \<in> ?vis \<union> elems pQueue'. reachable g start v \<and> parent' v \<noteq> None"
    using D(6) J'(3) J'(4) cur by blast
  have f: "\<forall>u \<in> ?vis. \<forall>v c. edge g u v c \<longrightarrow> v \<in> ?vis \<union> elems pQueue'"
    using D(7) closed sub by blast
  have "greedy_inv g start goal pQueue' ?vis parent' cost' (explored @ [?cur])"
    unfolding greedy_inv_def using a b c d e f J'(2) by blast
  with res show ?thesis by blast
qed

lemma greedy_post:
  assumes wf: "wf_graph g" and st: "getNode g start \<noteq> None"
  shows "\<exists>r. greedy g start goal = Inr r \<and> search_post g start goal r \<and>
             (found r \<longrightarrow> sumEdgeCosts g (path r) 0 = Inr (pathCost r) \<and> path r \<noteq> [] \<and>
                hd (path r) = start \<and> last (path r) = goal)"
proof -
  from st obtain startNode where sn: "getNode g start = Some startNode" by auto
  let ?Q = "\<lambda>res. \<exists>r. res = Inr r \<and> search_post g start goal r \<and>
             (found r \<longrightarrow> sumEdgeCosts g (path r) 0 = Inr (pathCost r) \<and> path r \<noteq> [] \<and>
                hd (path r) = start \<and> last (path r) = goal)"
  have "?Q (greedy_loop g start goal (enqueue [] start (node_h startNode)) {} [start \<mapsto> None]
              [start \<mapsto> 0] [])"
  proof (rule greedy_loop_rule [where I = "greedy_inv g start goal"], goal_cases)
    case 1
    have ch: "chained g start [start \<mapsto> None] [start \<mapsto> 0] start"
      by (rule chained_start) simp_all
    have c: "\<forall>v. [start \<mapsto> None] v \<noteq> None \<longrightarrow>
               chained g start [start \<mapsto> None] [start \<mapsto> 0] v"
    proof (intro allI impI)
      fix v :: string
      assume "[start \<mapsto> None] v \<noteq> None"
      then have "v = start" by (simp split: if_splits)
      with ch show "chained g start [start \<mapsto> None] [start \<mapsto> 0] v" by simp
    qed
    have e: "elems (enqueue [] start (node_h startNode)) = {start}" by simp
    show ?case unfolding greedy_inv_def e using c by simp
  next
    case (2 pQueue visited parent cost explored)
    then show ?case by (intro greedy_inv_skip)
  next
    case (3 pQueue visited parent cost explored)
    then show ?case by (intro greedy_inv_step [OF wf])
  next
    case (4 pQueue visited parent cost explored)
    note D = greedy_invD [OF 4(1)]
    have "goal \<in> elems pQueue" using elems_dequeue [OF 4(2)] 4(3) by auto
    then have g: "reachable g start goal" "parent goal \<noteq> None" using D(6) by blast+
    then have "chained g start parent cost goal" using D(5) by blast
    from chained_path [OF this] obtain p c where
      p: "reconstruct parent (Some goal) [] = Some (p @ [goal])" "cost goal = Some c"
      "sumEdgeCosts g (p @ [goal]) 0 = Inr c" "hd (p @ [goal]) = start" by blast
    let ?r = "mkResult True (p @ [goal]) c (explored @ [goal])"
    have "buildResult g start goal parent (explored @ [goal]) True (Some cost) = Inr ?r"
      using p(1,2) g(2) by (auto simp: buildResult_def simp del: reconstruct_step)
    moreover have "search_post g start goal ?r"
      using D(1,2,3) D(6) g(1) by (auto simp: search_post_def mkResult_def)
    moreover have "sumEdgeCosts g (path ?r) 0 = Inr (pathCost ?r)" "path ?r \<noteq> []"
      "hd (path ?r) = start" "last (path ?r) = goal"
      using p(3,4) by (simp_all add: mkResult_def)
    ultimately show ?case by blast
  next
    case (5 visited parent cost explored)
    note D = greedy_invD [OF 5]
    have all: "v \<in> set explored" if "reachable g start v" for v
    proof -
      from that obtain c where "walk g start c v" by (auto simp: reachable_def)
      then show ?thesis
      proof (rule closed_reachable)
        show "start \<in> set explored" using D(2,4) by simp
        show "b \<in> set explored" if "a \<in> set explored" "edge g a b e" for a b e
          using D(2) D(7) [of a b e] that by simp
      qed
    qed
    have "search_post g start goal (mkResult False [] 0 explored)"
      using D(1,2,3) D(6) all by (auto simp: search_post_def mkResult_def)
    moreover have "\<not> found (mkResult False [] 0 explored)" by (simp add: mkResult_def)
    ultimately show ?case by (auto simp: buildResult_not_found)
  qed
  then show ?thesis using sn by (simp add: greedy_def)
qed

lemma greedy_visit_keeps:
  assumes "greedy_visit current visited nb (pQueue, parent, cost) = Inr (pQueue', parent', cost')"
    and "parent v \<noteq> None"
  shows "parent' v = parent v \<and> cost' v = cost v \<and> parent' v \<noteq> None"
proof (cases nb)
  case (Pair ndo c)
  show ?thesis
  proof (cases ndo)
    case None
    with Pair assms show ?thesis by simp
  next
    case (Some nd)
    with Pair assms show ?thesis
      by (auto simp: Let_def split: if_splits option.splits)
  qed
qed

lemma greedy_neighbors_keep:
  assumes "forEach (greedy_visit current visited) nbs (pQueue, parent, cost)
           = Inr (pQueue', parent', cost')"
    and "parent v \<noteq> None"
  shows "parent' v = parent v \<and> cost' v = cost v"
proof -
  let ?I = "\<lambda>(q, p, c). p v = parent v \<and> c v = cost v"
  have "?I (pQueue', parent', cost')"
  proof (rule forEach_rule [OF assms(1), where I = ?I], goal_cases)
    case 1
    show ?case by simp
  next
    case (2 x t t')
    obtain q p c q' p' c' where t: "t = (q, p, c)" "t' = (q', p', c')"
      by (metis prod_cases3)
    have "p v \<noteq> None" using 2(2) assms(2) t by simp
    from greedy_visit_keeps [OF 2(3) [unfolded t] this] 2(2) show ?case by (simp add: t)
  qed
  then show ?thesis by simp
qed

subsection \<open>Predecessor chains under relaxation\<close>






subsection \<open>A* search\<close>





subsection \<open>Least costs\<close>
















subsection \<open>Uniform-cost search is A* without a heuristic\<close>



















subsection \<open>The data model is kept by the operations of the graph store\<close>

lemma in_set_update:
  "(a, b) \<in> set (AList.update k v al) \<Longrightarrow> (a = k \<and> b = v) \<or> (a, b) \<in> set al"
  by (induction al) (auto split: if_splits)

lemma wf_graph_empty: "wf_graph \<lparr>nodes = [], edges = []\<rparr>"
  by (simp add: wf_graph_def)

lemma wf_graph_addNode:
  assumes "wf_graph g"
  shows "wf_graph (addNode g name x y h)"
proof -
  let ?g = "addNode g name x y h"
  have n: "node_name nd = k" if "(k, nd) \<in> set (nodes ?g)" for k nd
    using that wf_node_name [OF assms] by (auto simp: addNode_def dest!: in_set_update)
  have keep: "getNode ?g v \<noteq> None" if "getNode g v \<noteq> None" for v
    using that by (simp add: getNode_def addNode_def update_conv')
  have e: "getNode ?g v \<noteq> None \<and> 0 \<le> c" if "(u, es) \<in> set (edges ?g)" "(v, c) \<in> set es"
    for u es v c
  proof -
    have "(u, es) \<in> set (edges g) \<or> es = []"
      using that(1) by (auto simp: addNode_def split: if_splits dest!: in_set_update)
    then have "(u, es) \<in> set (edges g)" using that(2) by auto
    from wf_edge [OF assms this that(2)] keep show ?thesis by blast
  qed
  show ?thesis unfolding wf_graph_def using n e by blast
qed

lemma wf_graph_addDirected:
  assumes "wf_graph g" "getNode g to \<noteq> None" "0 \<le> cost"
    and "addDirected g from to cost = Inr g'"
  shows "wf_graph g' \<and> nodes g' = nodes g"
proof -
  from assms(4) obtain fromEdges where fe: "map_of (edges g) from = Some fromEdges"
    and g': "g' = g\<lparr>edges := AList.update from (AList.update to cost fromEdges) (edges g)\<rparr>"
    by (cases "map_of (edges g) from") (auto simp: addDirected_def)
  have old: "(from, fromEdges) \<in> set (edges g)" using fe by (rule map_of_SomeD)
  have nd: "nodes g' = nodes g" by (simp add: g')
  then have gn: "getNode g' v = getNode g v" for v by (simp add: getNode_def)
  have e: "getNode g' v \<noteq> None \<and> 0 \<le> c" if "(u, es) \<in> set (edges g')" "(v, c) \<in> set es"
    for u es v c
  proof -
    from that(1) consider "es = AList.update to cost fromEdges" | "(u, es) \<in> set (edges g)"
      by (auto simp: g' dest!: in_set_update)
    then show ?thesis
    proof cases
      case 1
      then have "(v = to \<and> c = cost) \<or> (v, c) \<in> set fromEdges"
        using that(2) in_set_update by fast
      then show ?thesis using assms(2,3) wf_edge [OF assms(1) old] gn by auto
    next
      case 2
      from wf_edge [OF assms(1) this that(2)] gn show ?thesis by simp
    qed
  qed
  have n: "node_name x = k" if "(k, x) \<in> set (nodes g')" for k x
    using that wf_node_name [OF assms(1)] nd by simp
  show ?thesis unfolding wf_graph_def using n e nd by blast
qed

lemma wf_graph_addEdge:
  assumes "wf_graph g" "0 \<le> cost" "addEdge g from to cost bidirectional = Inr g'"
  shows "wf_graph g'"
proof (cases "map_of (nodes g) from = None \<or> map_of (nodes g) to = None")
  case True
  then show ?thesis using assms by (simp add: addEdge_def)
next
  case False
  then have nf: "getNode g from \<noteq> None" "getNode g to \<noteq> None" by (simp_all add: getNode_def)
  from assms(3) False obtain g1 where g1: "addDirected g from to cost = Inr g1"
    by (cases "addDirected g from to cost") (auto simp: addEdge_def)
  from wf_graph_addDirected [OF assms(1) nf(2) assms(2) g1]
  have w1: "wf_graph g1" "nodes g1 = nodes g" by blast+
  show ?thesis
  proof (cases bidirectional)
    case False
    then show ?thesis using assms(3) g1 w1 \<open>\<not> (map_of (nodes g) from = None \<or> map_of (nodes g) to = None)\<close>
      by (simp add: addEdge_def)
  next
    case True
    then have "addDirected g1 to from cost = Inr g'"
      using assms(3) g1 \<open>\<not> (map_of (nodes g) from = None \<or> map_of (nodes g) to = None)\<close>
      by (simp add: addEdge_def)
    moreover have "getNode g1 from \<noteq> None" using nf(1) w1(2) by (simp add: getNode_def)
    ultimately show ?thesis using wf_graph_addDirected [OF w1(1) _ assms(2)] by blast
  qed
qed

lemma wf_graph_removeNode:
  assumes "wf_graph g"
  shows "wf_graph (removeNode g name)"
proof (cases "map_of (nodes g) name = None")
  case True
  then show ?thesis using assms by (simp add: removeNode_def)
next
  case False
  let ?g = "removeNode g name"
  have nodes: "nodes ?g = AList.delete name (nodes g)" using False by (auto simp: removeNode_def)
  have edges: "edges ?g = AList.delete name
                 (map (\<lambda>(nodeName, es). (nodeName, filter (\<lambda>(to, cost). to \<noteq> name) es))
                    (edges g))"
    using False by (auto simp: removeNode_def)
  have n: "node_name x = k" if "(k, x) \<in> set (nodes ?g)" for k x
    using that wf_node_name [OF assms] unfolding nodes by (auto simp: AList.delete_eq)
  have gn: "getNode ?g v = getNode g v" if "v \<noteq> name" for v
    using that unfolding getNode_def nodes by (simp add: delete_conv')
  have e: "getNode ?g v \<noteq> None \<and> 0 \<le> c" if "(u, es) \<in> set (edges ?g)" "(v, c) \<in> set es"
    for u es v c
  proof -
    from that(1) obtain es0 where es0: "(u, es0) \<in> set (edges g)"
      "es = filter (\<lambda>(to, cost). to \<noteq> name) es0"
      unfolding edges by (auto simp: AList.delete_eq)
    then have "(v, c) \<in> set es0" "v \<noteq> name" using that(2) by auto
    from wf_edge [OF assms es0(1) this(1)] gn [OF this(2)] show ?thesis by simp
  qed
  show ?thesis unfolding wf_graph_def using n e by blast
qed

section \<open>The claims about the search strategies\<close>

lemma diamond_built:
  "foldl (\<lambda>r (from, to, cost). case r of Inl e \<Rightarrow> Inl e | Inr g \<Rightarrow> addEdge g from to cost False)
     (Inr (foldl (\<lambda>g (name, x, y, h). addNode g name x y h) \<lparr>nodes = [], edges = []\<rparr>
        [(''S'', 0, 0, 0), (''A'', 100, 0, 5), (''C'', 100, 100, 0), (''G'', 200, 100, 0)]))
     [(''S'', ''C'', 3), (''S'', ''A'', 1), (''A'', ''C'', 1), (''C'', ''G'', 5)]
   = Inr (diamond 5)"
  by code_simp

lemma discount_built:
  "(case addEdge (foldl (\<lambda>g (name, x, y, h). addNode g name x y h) \<lparr>nodes = [], edges = []\<rparr>
             [(''S'', 0, 0, 0), (''A'', 100, 0, 0), (''G'', 200, 0, 0)]) ''S'' ''A'' (- 1) True of
      Inl e \<Rightarrow> Inl e
    | Inr g \<Rightarrow> addEdge g ''A'' ''G'' 5 False)
   = Inr discount"
  by code_simp

lemma toll_built:
  "(case addEdge (foldl (\<lambda>g (name, x, y, h). addNode g name x y h) \<lparr>nodes = [], edges = []\<rparr>
             [(''S'', 0, 0, 0), (''A'', 100, 0, 0), (''G'', 200, 0, 0)])
           ''S'' ''A'' 9007199254740992 False of
      Inl e \<Rightarrow> Inl e
    | Inr g \<Rightarrow> addEdge g ''A'' ''G'' 1 False)
   = Inr toll"
  by code_simp


lemma wf_default: "wf_graph defaultGraph"
  by code_simp


lemma default_walk: "walk defaultGraph ''A'' 8 ''Goal''"
proof -
  have e: "edge defaultGraph ''A'' ''B'' 2" "edge defaultGraph ''B'' ''E'' 4"
    "edge defaultGraph ''E'' ''Goal'' 2" by code_simp+
  have "walk defaultGraph ''A'' (2 + (4 + (2 + 0))) ''Goal''"
    by (intro walk_step [OF e(1)] walk_step [OF e(2)] walk_step [OF e(3)] walk_refl)
  then show ?thesis by simp
qed











lemma potential_walk:
  assumes "walk g u d v" and "\<And>a b e. edge g a b e \<Longrightarrow> \<phi> a \<le> e + \<phi> b"
  shows "\<phi> u \<le> d + (\<phi> v :: number)"
  using assms(1)
proof (induction rule: walk.induct)
  case (walk_refl u)
  show ?case by simp
next
  case (walk_step u v c d w)
  from assms(2) [OF walk_step(1)] walk_step(3) show ?case by simp
qed




text \<open>
  Sums of doubles are rounded, so costs must also stay in the range where sums are exact:
  with the edges S-A of cost \<open>2^53\<close> and A-G of cost 1, \<open>ucs('S', 'G')\<close> reports \<open>2^53\<close>, and
  the only walk costs \<open>2^53 + 1\<close>.
\<close>

lemma ucs_rounded_cost:
  "ucs toll ''S'' ''G'' =
     Inr \<lparr>found = True, path = [''S'', ''A'', ''G''], pathCost = 9007199254740992,
          nodesExplored = 3, exploredOrder = [''S'', ''A'', ''G'']\<rparr> \<and>
   min_cost toll ''S'' ''G'' 9007199254740993"
proof -
  have run: "ucs toll ''S'' ''G'' =
     Inr \<lparr>found = True, path = [''S'', ''A'', ''G''], pathCost = 9007199254740992,
          nodesExplored = 3, exploredOrder = [''S'', ''A'', ''G'']\<rparr>"
    by code_simp
  have e: "edge toll ''S'' ''A'' 9007199254740992" "edge toll ''A'' ''G'' 1"
    by (simp_all add: edge_def toll_def)
  have "walk toll ''S'' (9007199254740992 + (1 + 0)) ''G''"
    by (intro walk_step [OF e(1)] walk_step [OF e(2)] walk_refl)
  then have w: "walk toll ''S'' 9007199254740993 ''G''" by simp
  let ?\<phi> = "\<lambda>v. if v = ''S'' then 9007199254740993 else if v = ''A'' then 1 else (0::number)"
  have "9007199254740993 \<le> d" if "walk toll ''S'' d ''G''" for d
  proof -
    have "?\<phi> ''S'' \<le> d + ?\<phi> ''G''"
      by (rule potential_walk [OF that]) (auto simp: edge_def toll_def split: if_splits)
    then show ?thesis by simp
  qed
  then show ?thesis using run w unfolding min_cost_def by blast
qed

text \<open>
  The same holds for the priorities of \<open>astar\<close>: with the heuristic value \<open>2^60\<close> at every
  vertex of the four-vertex graph, which is consistent, every priority is rounded to
  \<open>2^60\<close>, C leaves the queue before A, and \<open>astar('S', 'G')\<close> reports 8 again.
\<close>

lemma astar_rounded_priority:
  "consistent (plateau (2 ^ 60)) \<and>
   astar (plateau (2 ^ 60)) ''S'' ''G'' =
     Inr \<lparr>found = True, path = [''S'', ''A'', ''C'', ''G''], pathCost = 8, nodesExplored = 4,
          exploredOrder = [''S'', ''C'', ''A'', ''G'']\<rparr> \<and>
   walk (plateau (2 ^ 60)) ''S'' 7 ''G''"
proof -
  have "consistent (plateau (2 ^ 60))"
    by (simp add: consistent_def heuristic_def getNode_def plateau_def)
  moreover have "astar (plateau (2 ^ 60)) ''S'' ''G'' =
     Inr \<lparr>found = True, path = [''S'', ''A'', ''C'', ''G''], pathCost = 8, nodesExplored = 4,
          exploredOrder = [''S'', ''C'', ''A'', ''G'']\<rparr>"
    by code_simp
  moreover have "walk (plateau (2 ^ 60)) ''S'' 7 ''G''"
  proof -
    have e: "edge (plateau (2 ^ 60)) ''S'' ''A'' 1" "edge (plateau (2 ^ 60)) ''A'' ''C'' 1"
      "edge (plateau (2 ^ 60)) ''C'' ''G'' 5" by (simp_all add: edge_def plateau_def)
    have "walk (plateau (2 ^ 60)) ''S'' (1 + (1 + (5 + 0))) ''G''"
      by (intro walk_step [OF e(1)] walk_step [OF e(2)] walk_step [OF e(3)] walk_refl)
    then show ?thesis by simp
  qed
  ultimately show ?thesis by blast
qed



text \<open>
  C3 at the same input: \<open>astar('S', 'G')\<close> returns the path S, A, C, G, whose edges are in
  the graph and cost 1 + 1 + 5 = 7 (the sum \<open>buildResult\<close> itself computes for \<open>bfs\<close> and
  \<open>dfs\<close>), together with \<open>pathCost = 8\<close>.
\<close>

theorem astar_path_cost_mismatch:
  "astar (diamond 5) ''S'' ''G'' =
     Inr \<lparr>found = True, path = [''S'', ''A'', ''C'', ''G''], pathCost = 8, nodesExplored = 4,
          exploredOrder = [''S'', ''C'', ''A'', ''G'']\<rparr> \<and>
   sumEdgeCosts (diamond 5) [''S'', ''A'', ''C'', ''G''] 0 = Inr 7"
  by code_simp

text \<open>
  C8: in \<open>greedy\<close>, a round of the neighbour loop leaves the predecessor and cost entries
  of every vertex that already has a predecessor entry as they are (the entries are
  written nowhere else, so the first write stays). Hence, on a graph of the data model
  with \<open>start\<close> a vertex of it, the \<open>pathCost\<close> of a found goal is the sum of the edge costs
  along the returned path, which is the chain of first-discovery predecessors from \<open>start\<close>
  to \<open>goal\<close>. That cost need not be minimal: on the default graph \<open>greedy('A', 'Goal')\<close>
  reports more than the cost of another walk from A to Goal.
\<close>

theorem greedy_first_write_wins:
  "(forEach (greedy_visit current visited) nbs (pQueue, parent, cost)
      = Inr (pQueue', parent', cost') \<longrightarrow>
    parent v \<noteq> None \<longrightarrow> parent' v = parent v \<and> cost' v = cost v) \<and>
   (wf_graph g \<longrightarrow> getNode g start \<noteq> None \<longrightarrow>
    (\<exists>r. greedy g start goal = Inr r \<and>
         (found r \<longrightarrow> sumEdgeCosts g (path r) 0 = Inr (pathCost r) \<and>
            hd (path r) = start \<and> last (path r) = goal))) \<and>
   (\<exists>r c. greedy defaultGraph ''A'' ''Goal'' = Inr r \<and> found r \<and>
          walk defaultGraph ''A'' c ''Goal'' \<and> c < pathCost r)"
proof (intro conjI impI)
  assume "forEach (greedy_visit current visited) nbs (pQueue, parent, cost)
          = Inr (pQueue', parent', cost')" "parent v \<noteq> None"
  then show "parent' v = parent v" "cost' v = cost v"
    using greedy_neighbors_keep by blast+
next
  assume "wf_graph g" "getNode g start \<noteq> None"
  from greedy_post [OF this, of goal]
  show "\<exists>r. greedy g start goal = Inr r \<and>
            (found r \<longrightarrow> sumEdgeCosts g (path r) 0 = Inr (pathCost r) \<and>
               hd (path r) = start \<and> last (path r) = goal)"
    by blast
next
  have "greedy defaultGraph ''A'' ''Goal'' =
          Inr \<lparr>found = True, path = [''A'', ''C'', ''F'', ''G'', ''Goal''], pathCost = 12,
               nodesExplored = 5, exploredOrder = [''A'', ''C'', ''F'', ''G'', ''Goal'']\<rparr>"
    by code_simp
  then show "\<exists>r c. greedy defaultGraph ''A'' ''Goal'' = Inr r \<and> found r \<and>
               walk defaultGraph ''A'' c ''Goal'' \<and> c < pathCost r"
    using default_walk by (intro exI [of _ 8] exI) auto
qed

theorem greedy_first_write_wins_witness:
  "forEach (greedy_visit ''A'' {''A''}) (getNeighbors defaultGraph ''A'')
     ([], [''A'' \<mapsto> None], [''A'' \<mapsto> 0])
   = Inr (enqueue (enqueue [] ''B'' 6) ''C'' 5,
          [''A'' \<mapsto> None, ''B'' \<mapsto> Some ''A'', ''C'' \<mapsto> Some ''A''],
          [''A'' \<mapsto> 0, ''B'' \<mapsto> 2, ''C'' \<mapsto> 3]) \<and>
   [''A'' \<mapsto> None :: string option] ''A'' \<noteq> None \<and>
   [''A'' \<mapsto> None, ''B'' \<mapsto> Some ''A'', ''C'' \<mapsto> Some ''A''] ''A'' = Some None \<and>
   [''A'' \<mapsto> 0 :: number, ''B'' \<mapsto> 2, ''C'' \<mapsto> 3] ''A'' = Some 0 \<and>
   wf_graph defaultGraph \<and> getNode defaultGraph ''A'' \<noteq> None \<and>
   (\<exists>r. greedy defaultGraph ''A'' ''Goal'' = Inr r \<and> found r \<and>
        sumEdgeCosts defaultGraph (path r) 0 = Inr (pathCost r) \<and>
        hd (path r) = ''A'' \<and> last (path r) = ''Goal'')"
proof -
  have nbs: "getNeighbors defaultGraph ''A'' =
               [(Some \<lparr>node_name = ''B'', node_x = 250, node_y = 80, node_h = 6\<rparr>, 2),
                (Some \<lparr>node_name = ''C'', node_x = 150, node_y = 200, node_h = 5\<rparr>, 3)]"
    by code_simp
  have h0: "forEach (greedy_visit ''A'' {''A''}) (getNeighbors defaultGraph ''A'')
              ([], [''A'' \<mapsto> None], [''A'' \<mapsto> 0])
            = Inr (enqueue (enqueue [] ''B'' 6) ''C'' 5,
                   [''A'' \<mapsto> None, ''B'' \<mapsto> Some ''A'', ''C'' \<mapsto> Some ''A''],
                   [''A'' \<mapsto> 0, ''B'' \<mapsto> 2, ''C'' \<mapsto> 3])"
    unfolding nbs by (simp add: Let_def number_add_exact)
  have h1: "[''A'' \<mapsto> None :: string option] ''A'' \<noteq> None" by simp
  have h2: "wf_graph defaultGraph" by (rule wf_default)
  have h3: "getNode defaultGraph ''A'' \<noteq> None" by code_simp
  have run: "greedy defaultGraph ''A'' ''Goal'' =
          Inr \<lparr>found = True, path = [''A'', ''C'', ''F'', ''G'', ''Goal''], pathCost = 12,
               nodesExplored = 5, exploredOrder = [''A'', ''C'', ''F'', ''G'', ''Goal'']\<rparr>"
    by code_simp
  note inst = greedy_first_write_wins [of "''A''" "{''A''}" "getNeighbors defaultGraph ''A''" "[]"
      "[''A'' \<mapsto> None]" "[''A'' \<mapsto> 0]" "enqueue (enqueue [] ''B'' 6) ''C'' 5"
      "[''A'' \<mapsto> None, ''B'' \<mapsto> Some ''A'', ''C'' \<mapsto> Some ''A'']"
      "[''A'' \<mapsto> 0, ''B'' \<mapsto> 2, ''C'' \<mapsto> 3]" "''A''" defaultGraph "''A''" "''Goal''"]
  from inst h0 h1 have keep:
    "[''A'' \<mapsto> None, ''B'' \<mapsto> Some ''A'', ''C'' \<mapsto> Some ''A''] ''A'' = [''A'' \<mapsto> None] ''A''"
    "[''A'' \<mapsto> 0 :: number, ''B'' \<mapsto> 2, ''C'' \<mapsto> 3] ''A'' = [''A'' \<mapsto> 0] ''A''"
    by blast+
  from inst h2 h3 obtain r where r: "greedy defaultGraph ''A'' ''Goal'' = Inr r"
    "found r \<longrightarrow> sumEdgeCosts defaultGraph (path r) 0 = Inr (pathCost r) \<and>
       hd (path r) = ''A'' \<and> last (path r) = ''Goal''"
    by blast
  have "found r" using r(1) run by auto
  with r have "\<exists>r. greedy defaultGraph ''A'' ''Goal'' = Inr r \<and> found r \<and>
        sumEdgeCosts defaultGraph (path r) 0 = Inr (pathCost r) \<and>
        hd (path r) = ''A'' \<and> last (path r) = ''Goal''" by blast
  then show ?thesis using h0 h1 h2 h3 keep by simp
qed

section \<open>Concrete runs\<close>

text \<open>
  C2: on the graph of \<open>initializeDefaultGraph\<close> (the eleven bidirectional edges and the
  eight heuristic values of the fixture), \<open>ucs('A', 'Goal')\<close> and \<open>astar('A', 'Goal')\<close> both
  return \<open>pathCost = 8\<close>, and \<open>astar\<close> explores no more vertices than \<open>ucs\<close>.
\<close>

theorem default_graph_costs:
  "case newGraph of
     Inl e \<Rightarrow> False
   | Inr g \<Rightarrow>
       (case (ucs g ''A'' ''Goal'', astar g ''A'' ''Goal'') of
          (Inr ru, Inr ra) \<Rightarrow>
            pathCost ru = 8 \<and> pathCost ra = 8 \<and> nodesExplored ra \<le> nodesExplored ru
        | _ \<Rightarrow> False)"
  by code_simp

text \<open>
  C10: with \<open>start = goal = v\<close> for a vertex \<open>v\<close> of the graph, each of the five strategies
  returns \<open>found = true\<close>, \<open>path = [v]\<close>, \<open>pathCost = 0\<close>, \<open>exploredOrder = [v]\<close> and
  \<open>nodesExplored = 1\<close>.
\<close>

theorem start_is_goal:
  assumes "getNode g v \<noteq> None"
  shows "bfs g v v = Inr \<lparr>found = True, path = [v], pathCost = 0, nodesExplored = 1,
                          exploredOrder = [v]\<rparr> \<and>
         dfs g v v = Inr \<lparr>found = True, path = [v], pathCost = 0, nodesExplored = 1,
                          exploredOrder = [v]\<rparr> \<and>
         ucs g v v = Inr \<lparr>found = True, path = [v], pathCost = 0, nodesExplored = 1,
                          exploredOrder = [v]\<rparr> \<and>
         astar g v v = Inr \<lparr>found = True, path = [v], pathCost = 0, nodesExplored = 1,
                            exploredOrder = [v]\<rparr> \<and>
         greedy g v v = Inr \<lparr>found = True, path = [v], pathCost = 0, nodesExplored = 1,
                             exploredOrder = [v]\<rparr>"
  using assms
  by (simp add: bfs_def dfs_def ucs_def astar_def greedy_def buildResult_def mkResult_def
        enqueue_empty dequeue_single isEmpty_def Let_def
        dfs_loop.simps [of _ _ _ "[x]" for x] ucs_loop.simps [of _ _ _ "[x]" for x]
        astar_loop.simps [of _ _ _ "[x]" for x] greedy_loop.simps [of _ _ _ "[x]" for x]
        split: option.splits)

theorem start_is_goal_witness:
  "getNode defaultGraph ''D'' \<noteq> None \<and>
   bfs defaultGraph ''D'' ''D'' = Inr \<lparr>found = True, path = [''D''], pathCost = 0,
     nodesExplored = 1, exploredOrder = [''D'']\<rparr> \<and>
   greedy defaultGraph ''D'' ''D'' = Inr \<lparr>found = True, path = [''D''], pathCost = 0,
     nodesExplored = 1, exploredOrder = [''D'']\<rparr>"
proof -
  have h: "getNode defaultGraph ''D'' \<noteq> None" by code_simp
  from start_is_goal [OF h] h show ?thesis by simp
qed

end
